theory Spec2Isabelle
  imports Complex_Main "HOL-Library.Word" "HOL-Library.Sublist" "HOL-Library.Log_Nat"
begin

unbundle bit_operations_syntax

section \<open>float64\<close>

text \<open>
  Go's \<^verbatim>\<open>float64\<close> is IEEE 754 binary64. \<open>Finite m e\<close> is the number \<open>m * 2 ^ e\<close>;
  a number has many such names, and the operations below do not depend on the name. The
  sign of a zero is not modelled: no operation of the program tells \<open>-0\<close> from \<open>0\<close>.

  Every arithmetic operation yields the exact result rounded to the nearest float64,
  ties to the even mantissa. \<open>round_shift m s\<close> is \<open>m / 2 ^ s\<close> rounded so to an
  integer. \<open>f64_round m e\<close> rounds \<open>m * 2 ^ e\<close>: it keeps 53 bits of mantissa, fewer
  below the smallest normal number (no exponent under -1074), and yields an infinity from
  \<open>2 ^ 1024\<close> on.
\<close>

datatype float64 = Finite int int | PInf | NInf | NaN

definition round_shift :: "int \<Rightarrow> nat \<Rightarrow> int" where
  "round_shift m s =
     (let q = m div 2 ^ s; r = m mod 2 ^ s in
      if 2 * r < 2 ^ s then q
      else if 2 ^ s < 2 * r then q + 1
      else if even q then q else q + 1)"

definition f64_round :: "int \<Rightarrow> int \<Rightarrow> float64" where
  "f64_round m e =
     (if m = 0 then Finite 0 0
      else
        let s = max (bitlen \<bar>m\<bar> - 53) (- 1074 - e);
            m' = (if s \<le> 0 then m else round_shift m (nat s));
            e' = (if s \<le> 0 then e else e + s)
        in if 1024 < bitlen \<bar>m'\<bar> + e' then (if 0 < m' then PInf else NInf)
           else Finite m' e')"

text \<open>\<^verbatim>\<open>x + y\<close>.\<close>

fun f64_add :: "float64 \<Rightarrow> float64 \<Rightarrow> float64" where
  "f64_add (Finite m1 e1) (Finite m2 e2) =
     (let e = min e1 e2 in f64_round (m1 * 2 ^ nat (e1 - e) + m2 * 2 ^ nat (e2 - e)) e)"
| "f64_add NaN y = NaN"
| "f64_add x NaN = NaN"
| "f64_add PInf NInf = NaN"
| "f64_add NInf PInf = NaN"
| "f64_add PInf y = PInf"
| "f64_add x PInf = PInf"
| "f64_add NInf y = NInf"
| "f64_add x NInf = NInf"

text \<open>\<^verbatim>\<open>x / 2\<close>: the exact quotient by 2 is \<open>m * 2 ^ (e - 1)\<close>.\<close>

fun f64_div2 :: "float64 \<Rightarrow> float64" where
  "f64_div2 (Finite m e) = f64_round m (e - 1)"
| "f64_div2 x = x"

text \<open>\<^verbatim>\<open>x * y\<close>.\<close>

fun f64_mul :: "float64 \<Rightarrow> float64 \<Rightarrow> float64" where
  "f64_mul (Finite m1 e1) (Finite m2 e2) = f64_round (m1 * m2) (e1 + e2)"
| "f64_mul NaN y = NaN"
| "f64_mul x NaN = NaN"
| "f64_mul (Finite m e) PInf = (if m = 0 then NaN else if 0 < m then PInf else NInf)"
| "f64_mul (Finite m e) NInf = (if m = 0 then NaN else if 0 < m then NInf else PInf)"
| "f64_mul PInf (Finite m e) = (if m = 0 then NaN else if 0 < m then PInf else NInf)"
| "f64_mul NInf (Finite m e) = (if m = 0 then NaN else if 0 < m then NInf else PInf)"
| "f64_mul PInf PInf = PInf"
| "f64_mul NInf NInf = PInf"
| "f64_mul PInf NInf = NInf"
| "f64_mul NInf PInf = NInf"

text \<open>\<^verbatim>\<open>x < y\<close>; every comparison with a NaN is false.\<close>

fun f64_less :: "float64 \<Rightarrow> float64 \<Rightarrow> bool" where
  "f64_less (Finite m1 e1) (Finite m2 e2) =
     (let e = min e1 e2 in m1 * 2 ^ nat (e1 - e) < m2 * 2 ^ nat (e2 - e))"
| "f64_less NaN y = False"
| "f64_less x NaN = False"
| "f64_less PInf y = False"
| "f64_less x NInf = False"
| "f64_less NInf y = True"
| "f64_less x PInf = True"

text \<open>The integer part of \<open>m * 2 ^ e\<close>, towards zero.\<close>

definition f64_trunc :: "int \<Rightarrow> int \<Rightarrow> int" where
  "f64_trunc m e =
     (if 0 \<le> e then m * 2 ^ nat e
      else if 0 \<le> m then m div 2 ^ nat (- e) else - ((- m) div 2 ^ nat (- e)))"

text \<open>The real number a finite float64 stands for.\<close>

definition f64_val :: "float64 \<Rightarrow> real" where
  "f64_val x = (case x of Finite m e \<Rightarrow> of_int m * 2 powr of_int e | _ \<Rightarrow> 0)"

section \<open>Data model\<close>

text \<open>
  A sample is Go's \<^verbatim>\<open>[2]float64\<close>: the left and the right channel. Go's \<^verbatim>\<open>int\<close> has
  64 bits; the counters and sample indices are modelled without a bound, since an
  overflow needs more than \<open>2 ^ 53\<close> pulls of 1024 samples.
\<close>

type_synonym sample = "float64 \<times> float64"

type_synonym int16 = "16 word"

type_synonym byte = "8 word"

text \<open>
  An index expression \<^verbatim>\<open>buffer[j]\<close> with \<^verbatim>\<open>j >= len(buffer)\<close> panics in Go. The
  buffers of the program have 1024 entries, so that panic is reached exactly when a
  stream reports more than 1024 samples for one pull.
\<close>

datatype panic = IndexOutOfRange

text \<open>
  The decoder library's stream (\<^verbatim>\<open>beep.StreamSeekCloser\<close>) is an interface: the program
  only calls its methods. It is taken as a parameter: a record of the two methods the
  program calls, over any type \<open>'s\<close> of stream states.
  \<^item> \<open>Stream S s n\<close> is \<^verbatim>\<open>streamer.Stream(buffer)\<close> with \<^verbatim>\<open>len(buffer) = n\<close>: it
    returns the samples copied to the front of the buffer (their number is Go's \<^verbatim>\<open>n\<close>),
    the flag \<^verbatim>\<open>ok\<close>, and the stream's next state.
  \<^item> \<open>Seek S s p\<close> is \<^verbatim>\<open>streamer.Seek(p)\<close>: whether it reports an error, and the next
    state.
\<close>

record 's streamer =
  Stream :: "'s \<Rightarrow> nat \<Rightarrow> (sample list \<times> bool) \<times> 's"
  Seek :: "'s \<Rightarrow> int \<Rightarrow> bool \<times> 's"

section \<open>detectLoopSegment\<close>

text \<open>The local variables of \<^verbatim>\<open>detectLoopSegment\<close> that the scan updates.\<close>

record detector =
  start :: int
  endp :: int
  silenceCount :: nat

text \<open>
  \<^verbatim>\<open>var threshold float64 = 0.001\<close>: the float64 nearest to 1/1000, which is
  \<open>0x1.0624dd2f1a9fcp-10 = 1152921504606847 * 2 ^ -60\<close> (see \<open>threshold_nearest\<close>).
\<close>

definition threshold :: float64 where
  "threshold = Finite 1152921504606847 (- 60)"

definition silenceDuration :: nat where
  "silenceDuration = 44100 div 10"

text \<open>
  The body of the inner loop (source lines 101 to 111) at batch \<open>i\<close>, offset \<open>j\<close>, for
  the sample \<^verbatim>\<open>buffer[j]\<close>.
\<close>

definition sample_step :: "nat \<Rightarrow> nat \<Rightarrow> sample \<Rightarrow> detector \<Rightarrow> detector" where
  "sample_step i j x d =
     (let amp = f64_div2 (f64_add (fst x) (snd x)) in
      if f64_less amp threshold then d\<lparr>silenceCount := silenceCount d + 1\<rparr>
      else
        (if silenceCount d > silenceDuration
         then d\<lparr>start := endp d, endp := int (i * 1024 + j), silenceCount := 0\<rparr>
         else d\<lparr>silenceCount := 0\<rparr>))"

text \<open>
  The inner loop \<^verbatim>\<open>for j := 0; j < n; j++\<close>, from offset \<open>j\<close> on; the list holds
  \<^verbatim>\<open>buffer[j:n]\<close>.
\<close>

fun scan_buffer :: "nat \<Rightarrow> nat \<Rightarrow> sample list \<Rightarrow> detector \<Rightarrow> detector" where
  "scan_buffer i j [] d = d"
| "scan_buffer i j (x # xs) d = scan_buffer i (Suc j) xs (sample_step i j x d)"

text \<open>
  The outer loop \<^verbatim>\<open>for i := 0; ; i++\<close>. It has no bound of its own: it ends when a
  pull reports \<^verbatim>\<open>!ok\<close> or no sample. On a stream that never does, the loop does not
  return, which is the value \<open>None\<close>. A pull of more than 1024 samples panics at
  \<^verbatim>\<open>buffer[1024]\<close>.
\<close>

partial_function (option) detect_loop ::
  "'s streamer \<Rightarrow> nat \<Rightarrow> 's \<Rightarrow> detector \<Rightarrow> (panic + detector \<times> 's) option" where
  "detect_loop S i s d =
     (case Stream S s 1024 of
        ((buf, ok), s') \<Rightarrow>
          if \<not> ok \<or> length buf = 0 then Some (Inr (d, s'))
          else if length buf > 1024 then Some (Inl IndexOutOfRange)
          else detect_loop S (Suc i) s' (scan_buffer i 0 buf d))"

text \<open>
  \<^verbatim>\<open>detectLoopSegment\<close>: the pair \<^verbatim>\<open>(start, end)\<close> it returns, and the state it leaves
  the stream in.
\<close>

definition detectLoopSegment ::
  "'s streamer \<Rightarrow> 's \<Rightarrow> (panic + (int \<times> int) \<times> 's) option" where
  "detectLoopSegment S s =
     (case detect_loop S 0 s \<lparr>start = 0, endp = 0, silenceCount = 0\<rparr> of
        None \<Rightarrow> None
      | Some (Inl e) \<Rightarrow> Some (Inl e)
      | Some (Inr (d, s')) \<Rightarrow> Some (Inr ((start d, endp d), s')))"

section \<open>playAudioSegment and seamlessLoop\<close>

text \<open>
  \<^verbatim>\<open>int16(x)\<close> of a float64 drops the fraction (towards zero). When the result is not
  a value of \<^verbatim>\<open>int16\<close> (also for an infinity and a NaN), Go leaves the result to the
  implementation: it is \<open>oor x\<close>, for a parameter \<open>oor\<close> that stands for the
  implementation's choice and that every function of the player takes.
\<close>

definition int16_of_float :: "(float64 \<Rightarrow> int16) \<Rightarrow> float64 \<Rightarrow> int16" where
  "int16_of_float oor x =
     (case x of
        Finite m e \<Rightarrow>
          (let t = f64_trunc m e in
           if - 32768 \<le> t \<and> t \<le> 32767 then word_of_int t else oor x)
      | _ \<Rightarrow> oor x)"

definition channel :: "sample \<Rightarrow> nat \<Rightarrow> float64" where
  "channel x ch = (if ch = 0 then fst x else snd x)"

text \<open>The body of the loop over \<^verbatim>\<open>ch\<close> (source lines 141 to 143).\<close>

definition store_channel ::
  "(float64 \<Rightarrow> int16) \<Rightarrow> sample list \<Rightarrow> nat \<Rightarrow> nat \<Rightarrow> byte list \<Rightarrow> byte list" where
  "store_channel oor buffer i ch wb =
     (let sample = int16_of_float oor (f64_mul (channel (buffer ! i) ch) (Finite 32767 0)) in
      (wb[i * 4 + ch * 2 := ucast sample])
         [i * 4 + ch * 2 + 1 := ucast (signed_drop_bit 8 sample)])"

text \<open>
  The two nested loops that fill \<^verbatim>\<open>writeBuffer\<close> (source lines 138 to 145) for the
  \<open>n\<close> samples of a pull; \<open>n\<close> is at most the length of the buffer here.
\<close>

definition fill_writeBuffer :: "(float64 \<Rightarrow> int16) \<Rightarrow> sample list \<Rightarrow> nat \<Rightarrow> byte list" where
  "fill_writeBuffer oor buffer n =
     fold (\<lambda>i wb. fold (\<lambda>ch. store_channel oor buffer i ch) [0..<2] wb) [0..<n]
       (replicate (n * 4) 0)"

text \<open>The sink: the byte buffers handed to \<^verbatim>\<open>player.Write\<close>, in order.\<close>

type_synonym sink = "byte list list"

text \<open>
  The loop of \<^verbatim>\<open>playAudioSegment\<close>, from a count \<open>samplesPlayed\<close> on. Every pull that
  does not end the loop adds at least one sample to the count, so the loop ends on every
  stream.
\<close>

function playAudioSegment_loop ::
  "(float64 \<Rightarrow> int16) \<Rightarrow> 's streamer \<Rightarrow> int \<Rightarrow> nat \<Rightarrow> 's \<Rightarrow> sink \<Rightarrow> panic + 's \<times> sink" where
  "playAudioSegment_loop oor S segmentLength samplesPlayed s snk =
     (if int samplesPlayed < segmentLength then
        (case Stream S s 1024 of
           ((buf, ok), s') \<Rightarrow>
             if \<not> ok \<or> length buf = 0 then Inr (s', snk)
             else if length buf > 1024 then Inl IndexOutOfRange
             else playAudioSegment_loop oor S segmentLength (samplesPlayed + length buf) s'
                    (snk @ [fill_writeBuffer oor buf (length buf)]))
      else Inr (s, snk))"
  by pat_completeness auto
termination
  by (relation "measure (\<lambda>(oor, S, seg, played, s, snk). nat (seg - int played))") auto

declare playAudioSegment_loop.simps [simp del]

definition playAudioSegment ::
  "(float64 \<Rightarrow> int16) \<Rightarrow> 's streamer \<Rightarrow> int \<Rightarrow> 's \<Rightarrow> sink \<Rightarrow> panic + 's \<times> sink" where
  "playAudioSegment oor S segmentLength s snk =
     playAudioSegment_loop oor S segmentLength 0 s snk"

text \<open>
  One pass of the body of \<^verbatim>\<open>seamlessLoop\<close>: seek to \<open>start\<close> (the error \<^verbatim>\<open>Seek\<close>
  returns is dropped), then play \<open>end - start\<close> samples.
\<close>

definition seamlessLoop_body ::
  "(float64 \<Rightarrow> int16) \<Rightarrow> 's streamer \<Rightarrow> int \<Rightarrow> int \<Rightarrow> 's \<Rightarrow> sink \<Rightarrow> panic + 's \<times> sink" where
  "seamlessLoop_body oor S start' end' s snk =
     playAudioSegment oor S (end' - start') (snd (Seek S s start')) snk"

text \<open>
  \<^verbatim>\<open>seamlessLoop\<close> is \<^verbatim>\<open>for { ... }\<close>: it has no exit, and only a panic ends it.
  Not returning is the value \<open>None\<close>.
\<close>

partial_function (option) seamlessLoop ::
  "(float64 \<Rightarrow> int16) \<Rightarrow> 's streamer \<Rightarrow> int \<Rightarrow> int \<Rightarrow> 's \<Rightarrow> sink \<Rightarrow> panic option" where
  "seamlessLoop oor S start' end' s snk =
     (case seamlessLoop_body oor S start' end' s snk of
        Inl e \<Rightarrow> Some e
      | Inr (s', snk') \<Rightarrow> seamlessLoop oor S start' end' s' snk')"

text \<open>The first \<open>k\<close> passes of \<^verbatim>\<open>seamlessLoop\<close>.\<close>

fun seamlessLoop_upto ::
  "nat \<Rightarrow> (float64 \<Rightarrow> int16) \<Rightarrow> 's streamer \<Rightarrow> int \<Rightarrow> int \<Rightarrow> 's \<Rightarrow> sink \<Rightarrow> panic + 's \<times> sink" where
  "seamlessLoop_upto 0 oor S start' end' s snk = Inr (s, snk)"
| "seamlessLoop_upto (Suc k) oor S start' end' s snk =
     (case seamlessLoop_body oor S start' end' s snk of
        Inl e \<Rightarrow> Inl e
      | Inr (s', snk') \<Rightarrow> seamlessLoop_upto k oor S start' end' s' snk')"

section \<open>An in-memory stream\<close>

text \<open>
  Modelled from the spec: the Sample Stream of its data model, which the repository
  takes from the decoder library. It is a finite sequence of samples with a cursor; a
  pull yields the next samples, at most as many as the buffer holds, and reports
  \<^verbatim>\<open>ok\<close> unless it yields none; a seek moves the cursor to an absolute sample index,
  and a pull at or beyond the end of the sequence yields no sample.
\<close>

record mem =
  frames :: "sample list"
  cursor :: nat

definition mem_Stream :: "mem \<Rightarrow> nat \<Rightarrow> (sample list \<times> bool) \<times> mem" where
  "mem_Stream m n =
     (let buf = take n (drop (cursor m) (frames m))
      in ((buf, buf \<noteq> []), m\<lparr>cursor := cursor m + length buf\<rparr>))"

definition mem_Seek :: "mem \<Rightarrow> int \<Rightarrow> bool \<times> mem" where
  "mem_Seek m p = (if p < 0 then (True, m) else (False, m\<lparr>cursor := nat p\<rparr>))"

definition mem_streamer :: "mem streamer" where
  "mem_streamer = \<lparr>Stream = mem_Stream, Seek = mem_Seek\<rparr>"

definition mem_of :: "sample list \<Rightarrow> mem" where
  "mem_of xs = \<lparr>frames = xs, cursor = 0\<rparr>"

section \<open>A scripted stream\<close>

text \<open>
  A test stream that replays a given list of pull results \<open>(samples, ok)\<close>, whatever the
  size of the buffer, and is drained after the last one. It cannot seek. It stands for a
  decoder whose pulls come short or report \<^verbatim>\<open>!ok\<close> in the middle of the data.
\<close>

type_synonym script = "(sample list \<times> bool) list"

definition script_Stream :: "script \<Rightarrow> nat \<Rightarrow> (sample list \<times> bool) \<times> script" where
  "script_Stream rs n = (case rs of [] \<Rightarrow> (([], False), []) | r # rs' \<Rightarrow> (r, rs'))"

definition script_streamer :: "script streamer" where
  "script_streamer = \<lparr>Stream = script_Stream, Seek = (\<lambda>rs p. (True, rs))\<rparr>"

section \<open>Notions the properties are stated with\<close>

text \<open>
  A sample counts as silent when the detector's test \<^verbatim>\<open>amp < threshold\<close> holds for it,
  in float64 arithmetic.
\<close>

definition silent :: "sample \<Rightarrow> bool" where
  "silent x = f64_less (f64_div2 (f64_add (fst x) (snd x))) threshold"

text \<open>No run of consecutive silent samples of \<open>xs\<close> is longer than \<open>silenceDuration\<close>.\<close>

definition no_long_silence :: "sample list \<Rightarrow> bool" where
  "no_long_silence xs =
     (\<forall>r \<in> set (sublists xs). (\<forall>x \<in> set r. silent x) \<longrightarrow> length r \<le> silenceDuration)"

text \<open>
  \<open>delivers S s bs s'\<close>: from the state \<open>s\<close> on, the pulls of 1024 samples yield the
  batches \<open>bs\<close>, each with \<^verbatim>\<open>ok\<close> and at least one sample, and the next pull reports
  \<^verbatim>\<open>!ok\<close> or no sample and leaves the stream in \<open>s'\<close>.
\<close>

fun delivers :: "'s streamer \<Rightarrow> 's \<Rightarrow> sample list list \<Rightarrow> 's \<Rightarrow> bool" where
  "delivers S s [] s' =
     (case Stream S s 1024 of ((buf, ok), t) \<Rightarrow> (\<not> ok \<or> buf = []) \<and> t = s')"
| "delivers S s (b # bs) s' =
     (case Stream S s 1024 of ((buf, ok), t) \<Rightarrow> ok \<and> buf \<noteq> [] \<and> buf = b \<and> delivers S t bs s')"

text \<open>The detector's inner loop run over successive batches, from batch number \<open>i\<close> on.\<close>

fun scan_batches :: "nat \<Rightarrow> sample list list \<Rightarrow> detector \<Rightarrow> detector" where
  "scan_batches i [] d = d"
| "scan_batches i (b # bs) d = scan_batches (Suc i) bs (scan_buffer i 0 b d)"

definition detector_init :: detector where
  "detector_init = \<lparr>start = 0, endp = 0, silenceCount = 0\<rparr>"

text \<open>
  \<open>stamp i bs p\<close> is the index the detector computes for the sample at position \<open>p\<close>
  (from 0) among the samples of the batches \<open>bs\<close>, the first of which is batch number
  \<open>i\<close>: the number of the sample's batch times 1024, plus its offset in the batch. When
  every batch but the last holds 1024 samples, \<open>stamp 0 bs p = p\<close>.
\<close>

fun stamp :: "nat \<Rightarrow> sample list list \<Rightarrow> nat \<Rightarrow> nat" where
  "stamp i [] p = i * 1024 + p"
| "stamp i (b # bs) p =
     (if p < length b then i * 1024 + p else stamp (Suc i) bs (p - length b))"

text \<open>
  The scan of the samples \<open>xs\<close>, which stand at the positions \<open>p, p + 1, ...\<close>, when the
  detector computes the index \<open>f q\<close> for the sample at position \<open>q\<close>.
\<close>

fun scan_fn :: "(nat \<Rightarrow> nat) \<Rightarrow> nat \<Rightarrow> sample list \<Rightarrow> detector \<Rightarrow> detector" where
  "scan_fn f p [] d = d"
| "scan_fn f p (x # xs) d = scan_fn f (Suc p) xs (sample_step 0 (f p) x d)"

text \<open>
  The four bytes the packing loop stores for one sample, written without the buffer: for
  each channel the low byte and then the high byte of its \<^verbatim>\<open>int16\<close>, left channel first.
\<close>

definition int16_bytes :: "int16 \<Rightarrow> byte list" where
  "int16_bytes w = [ucast w, ucast (signed_drop_bit 8 w)]"

definition pcm_bytes :: "(float64 \<Rightarrow> int16) \<Rightarrow> sample \<Rightarrow> byte list" where
  "pcm_bytes oor x =
     int16_bytes (int16_of_float oor (f64_mul (fst x) (Finite 32767 0))) @
     int16_bytes (int16_of_float oor (f64_mul (snd x) (Finite 32767 0)))"

text \<open>
  The little-endian two's complement encoding of an integer in 16 bits, low byte first:
  what the spec calls the little-endian encoding of a signed 16-bit value.
\<close>

definition le16_of_int :: "int \<Rightarrow> byte list" where
  "le16_of_int v = [word_of_int (v mod 256), word_of_int (v div 256 mod 256)]"

text \<open>
  A stretch of a stream that ends a qualifying silence: some audio \<open>g\<close> without a long
  silence, then a run \<open>r\<close> of more than \<open>silenceDuration\<close> silent samples, then the
  non-silent sample \<open>l\<close> that ends the run.
\<close>

type_synonym segment = "sample list \<times> sample list \<times> sample"

definition seg_samples :: "segment \<Rightarrow> sample list" where
  "seg_samples sg = (case sg of (g, r, l) \<Rightarrow> g @ r @ [l])"

definition qualifying :: "segment \<Rightarrow> bool" where
  "qualifying sg =
     (case sg of (g, r, l) \<Rightarrow>
        no_long_silence g \<and> list_all silent r \<and> silenceDuration < length r \<and> \<not> silent l)"

text \<open>
  The position at which the silent run of stretch number \<open>m\<close> (from 0) ends: the
  position of the non-silent sample that follows it.
\<close>

definition run_end :: "segment list \<Rightarrow> nat \<Rightarrow> nat" where
  "run_end segs m =
     length (concat (map seg_samples (take m segs))) +
     (case segs ! m of (g, r, l) \<Rightarrow> length g + length r)"

text \<open>
  The format of a decoded file (\<^verbatim>\<open>beep.Format\<close>), which \<^verbatim>\<open>openAudioFile\<close> returns
  beside the stream.
\<close>

record format =
  SampleRate :: nat
  NumChannels :: nat
  Precision :: nat

text \<open>
  The detection step of \<^verbatim>\<open>main\<close> (source lines 25 and 33): of the decoded file, only the
  stream is handed to \<^verbatim>\<open>detectLoopSegment\<close>.
\<close>

definition main_detect ::
  "'s streamer \<Rightarrow> 's \<times> format \<Rightarrow> (panic + (int \<times> int) \<times> 's) option" where
  "main_detect S file = (case file of (streamer, fmt) \<Rightarrow> detectLoopSegment S streamer)"

text \<open>
  Samples for the examples: \<open>quiet\<close> is \<open>(0.0, 0.0)\<close>, \<open>loud\<close> is \<open>(1.0, 1.0)\<close> and
  \<open>opposed\<close> is \<open>(1.0, -1.0)\<close>; all three are exact in float64.
\<close>

definition quiet :: sample where
  "quiet = (Finite 0 0, Finite 0 0)"

definition loud :: sample where
  "loud = (Finite 1 0, Finite 1 0)"

definition opposed :: sample where
  "opposed = (Finite 1 0, Finite (- 1) 0)"

text \<open>
  A stream of ten samples whose samples 2, 3 and 4 are \<open>(1.0, -1.0)\<close> and whose other
  samples are zero, and the 32 bytes that pack its samples 2 to 9.
\<close>

definition ten_samples :: "sample list" where
  "ten_samples =
     [quiet, quiet, opposed, opposed, opposed, quiet, quiet, quiet, quiet, quiet]"

definition ten_samples_from_2 :: "byte list" where
  "ten_samples_from_2 =
     [0xFF, 0x7F, 0x01, 0x80, 0xFF, 0x7F, 0x01, 0x80, 0xFF, 0x7F, 0x01, 0x80,
      0, 0, 0, 0, 0, 0, 0, 0, 0, 0, 0, 0, 0, 0, 0, 0, 0, 0, 0, 0]"

text \<open>
  Pulls for the examples. \<open>run_pulls\<close>: a run of 4411 silent samples and the non-silent
  sample that ends it, delivered as four pulls of 1024 samples and a short one of 316.
  \<open>two_short_runs\<close>: twice a run of 3000 silent samples and the non-silent sample that
  ends it, delivered as pulls of 1024 samples and a last one of 882.
\<close>

definition run_pulls :: "sample list list" where
  "run_pulls =
     [replicate 1024 quiet, replicate 1024 quiet, replicate 1024 quiet, replicate 1024 quiet,
      replicate 315 quiet @ [loud]]"

definition two_short_runs :: "sample list list" where
  "two_short_runs =
     [replicate 1024 quiet, replicate 1024 quiet, replicate 952 quiet @ [loud] @ replicate 71 quiet,
      replicate 1024 quiet, replicate 1024 quiet, replicate 881 quiet @ [loud]]"


section \<open>Lemmas on float64\<close>

text \<open>A number of at most 53 bits with an exponent in range is a float64 as it stands.\<close>

lemma f64_round_exact:
  assumes "\<bar>m\<bar> < 2 ^ 53" and "- 1074 \<le> e" and "e \<le> 971"
  shows "f64_round m e = (if m = 0 then Finite 0 0 else Finite m e)"
proof -
  have b: "bitlen \<bar>m\<bar> \<le> 53" using assms(1) by (simp add: bitlen_le_iff_power)
  then have "max (bitlen \<bar>m\<bar> - 53) (- 1074 - e) \<le> 0" using assms(2) by simp
  moreover have "\<not> 1024 < bitlen \<bar>m\<bar> + e" using b assms(3) by simp
  ultimately show ?thesis by (simp add: f64_round_def Let_def)
qed

text \<open>
  The threshold is the float64 nearest to 1/1000: its mantissa has 53 bits at the
  exponent -62, so its neighbours are \<open>2 ^ -62\<close> away, and it is less than half of that
  from 1/1000.
\<close>

lemma threshold_nearest:
  "f64_val threshold = 4611686018427388 / 2 ^ 62"
  "(2 :: int) ^ 52 \<le> 4611686018427388" "(4611686018427388 :: int) < 2 ^ 53"
  "\<bar>f64_val threshold - 1 / 1000\<bar> < 1 / 2 ^ 63"
  by (simp_all add: f64_val_def threshold_def powr_minus_divide)







section \<open>Concrete samples\<close>

lemma silent_quiet: "silent quiet"
  by code_simp

lemma loud_not_silent: "\<not> silent loud"
  by code_simp



lemma silenceDuration_4410: "silenceDuration = 4410"
  by (simp add: silenceDuration_def)

lemma f64_mul_extremes:
  "f64_mul (Finite 1 0) (Finite 32767 0) = Finite 32767 0"
  "f64_mul (Finite (- 1) 0) (Finite 32767 0) = Finite (- 32767) 0"
  "f64_mul (Finite 0 0) (Finite 32767 0) = Finite 0 0"
  by (simp_all add: f64_round_exact)

lemma int16_of_float_extremes:
  "int16_of_float oor (Finite 32767 0) = 32767"
  "int16_of_float oor (Finite (- 32767) 0) = - 32767"
  "int16_of_float oor (Finite 0 0) = 0"
  by (simp_all add: int16_of_float_def f64_trunc_def)

lemma pcm_bytes_extremes:
  "pcm_bytes oor opposed = [255, 127, 1, 128]" "pcm_bytes oor quiet = [0, 0, 0, 0]"
  by (simp_all add: pcm_bytes_def int16_bytes_def opposed_def quiet_def f64_round_exact
      int16_of_float_extremes)

text \<open>
  Two samples on which float64 arithmetic and exact arithmetic part. The exact average of
  \<open>(0.002, -2^-64)\<close> is below 1/1000, but the sum rounds to \<open>0.002\<close>, whose half is
  the threshold itself: the sample is not silent. The exact product of the float64
  nearest to 1/32767 and 32767 is below 1, but it rounds to 1, and \<^verbatim>\<open>int16\<close> of it is 1.
\<close>

lemma rounded_average_at_threshold:
  "\<not> silent (Finite 4611686018427388 (- 61), Finite (- 1) (- 64))"
  "(f64_val (Finite 4611686018427388 (- 61)) + f64_val (Finite (- 1) (- 64))) / 2 < 1 / 1000"
  by (code_simp, simp add: f64_val_def powr_minus_divide)

lemma rounded_product_reaches_one:
  "f64_val (Finite 35185445863425 (- 60)) * 32767 < 1"
  "f64_mul (Finite 35185445863425 (- 60)) (Finite 32767 0) = Finite 9007199254740992 (- 53)"
  "int16_of_float oor (Finite 9007199254740992 (- 53)) = 1"
proof -
  show "f64_val (Finite 35185445863425 (- 60)) * 32767 < 1"
    by (simp add: f64_val_def powr_minus_divide)
  show "f64_mul (Finite 35185445863425 (- 60)) (Finite 32767 0) = Finite 9007199254740992 (- 53)"
    by code_simp
  show "int16_of_float oor (Finite 9007199254740992 (- 53)) = 1"
    by (simp add: int16_of_float_def f64_trunc_def)
qed

section \<open>Lemmas on the scan\<close>

lemma sample_step_shift: "sample_step i j x d = sample_step 0 (i * 1024 + j) x d"
  by (simp add: sample_step_def)

lemma scan_buffer_shift: "scan_buffer i j xs d = scan_buffer 0 (i * 1024 + j) xs d"
proof (induction xs arbitrary: j d)
  case Nil
  show ?case by simp
next
  case (Cons x xs)
  have "scan_buffer i j (x # xs) d = scan_buffer 0 (i * 1024 + Suc j) xs (sample_step i j x d)"
    using Cons.IH [of "Suc j"] by simp
  also have "\<dots> = scan_buffer 0 (i * 1024 + j) (x # xs) d"
    using Cons.IH [of "Suc (i * 1024 + j)"] sample_step_shift [of i j x d] by simp
  finally show ?case .
qed

lemma scan_buffer_append:
  "scan_buffer i j (xs @ ys) d = scan_buffer i (j + length xs) ys (scan_buffer i j xs d)"
  by (induction xs arbitrary: j d) simp_all

lemma sample_step_silent:
  "silent x \<Longrightarrow> sample_step i j x d = d\<lparr>silenceCount := silenceCount d + 1\<rparr>"
  by (simp add: sample_step_def silent_def)

lemma sample_step_loud:
  "\<not> silent x \<Longrightarrow> sample_step i j x d =
     (if silenceCount d > silenceDuration
      then d\<lparr>start := endp d, endp := int (i * 1024 + j), silenceCount := 0\<rparr>
      else d\<lparr>silenceCount := 0\<rparr>)"
  by (simp add: sample_step_def silent_def)

text \<open>
  The inner loop and the scan of successive batches, as scans of the samples in their
  order with the indices the detector computes for them.
\<close>

lemma scan_fn_append:
  "scan_fn f p (xs @ ys) d = scan_fn f (p + length xs) ys (scan_fn f p xs d)"
  by (induction xs arbitrary: p d) simp_all

lemma scan_fn_eq:
  assumes "\<forall>q < length xs. f (p + q) = g (k + q)"
  shows "scan_fn f p xs d = scan_fn g k xs d"
  using assms
proof (induction xs arbitrary: p k d)
  case Nil
  show ?case by simp
next
  case (Cons x xs)
  have h: "f p = g k" using Cons.prems by (auto dest: spec [of _ 0])
  have "\<forall>q < length xs. f (Suc p + q) = g (Suc k + q)"
  proof (intro allI impI)
    fix q assume "q < length xs"
    then have "Suc q < length (x # xs)" by simp
    with Cons.prems have "f (p + Suc q) = g (k + Suc q)" by blast
    then show "f (Suc p + q) = g (Suc k + q)" by simp
  qed
  from Cons.IH [OF this] h show ?case by simp
qed

lemma scan_buffer_fn: "scan_buffer i j xs d = scan_fn (\<lambda>q. i * 1024 + q) j xs d"
  by (induction xs arbitrary: j d) (simp_all add: sample_step_shift [symmetric])

lemma scan_batches_fn: "scan_batches i bs d = scan_fn (stamp i bs) 0 (concat bs) d"
proof (induction bs arbitrary: i d)
  case Nil
  show ?case by simp
next
  case (Cons b bs)
  have a: "scan_fn (stamp i (b # bs)) 0 b d = scan_buffer i 0 b d"
    unfolding scan_buffer_fn by (rule scan_fn_eq) simp
  have c: "scan_fn (stamp i (b # bs)) (0 + length b) (concat bs) d' =
           scan_fn (stamp (Suc i) bs) 0 (concat bs) d'" for d'
    by (rule scan_fn_eq) simp
  have "scan_batches i (b # bs) d = scan_batches (Suc i) bs (scan_buffer i 0 b d)"
    by simp
  also have "\<dots> = scan_fn (stamp (Suc i) bs) 0 (concat bs) (scan_buffer i 0 b d)"
    by (rule Cons.IH)
  also have "\<dots> = scan_fn (stamp i (b # bs)) (0 + length b) (concat bs)
                      (scan_fn (stamp i (b # bs)) 0 b d)"
    unfolding a c ..
  also have "\<dots> = scan_fn (stamp i (b # bs)) 0 (b @ concat bs) d"
    by (rule scan_fn_append [symmetric])
  finally show ?case by (simp only: concat.simps)
qed

lemma stamp_full:
  assumes "\<forall>b \<in> set (butlast bs). length b = 1024" and "p < length (concat bs)"
  shows "stamp i bs p = i * 1024 + p"
  using assms
proof (induction bs arbitrary: i p)
  case Nil
  show ?case by simp
next
  case (Cons b bs)
  show ?case
  proof (cases "p < length b")
    case True
    then show ?thesis by simp
  next
    case False
    show ?thesis
    proof (cases "bs = []")
      case True
      then show ?thesis using False Cons.prems(2) by simp
    next
      case ne: False
      then have "length b = 1024" and "\<forall>b \<in> set (butlast bs). length b = 1024"
        using Cons.prems(1) by simp_all
      moreover have "p - length b < length (concat bs)" using False Cons.prems(2) by auto
      ultimately show ?thesis using Cons.IH [of "p - length b" "Suc i"] False by simp
    qed
  qed
qed

lemma scan_fn_silent_run:
  "\<forall>x \<in> set r. silent x \<Longrightarrow>
   scan_fn f p r d = d\<lparr>silenceCount := silenceCount d + length r\<rparr>"
  by (induction r arbitrary: p d) (simp_all add: sample_step_silent)

lemma scan_fn_ends_loud:
  assumes "\<not> silent l"
  shows "silenceCount (scan_fn f p (xs @ [l]) d) = 0"
  using assms by (simp add: scan_fn_append sample_step_loud)

lemma no_long_silenceD:
  "no_long_silence xs \<Longrightarrow> sublist r xs \<Longrightarrow> \<forall>x \<in> set r. silent x \<Longrightarrow> length r \<le> silenceDuration"
  by (simp add: no_long_silence_def)

lemma no_long_silence_sublist:
  "no_long_silence xs \<Longrightarrow> sublist ys xs \<Longrightarrow> no_long_silence ys"
  unfolding no_long_silence_def by (auto intro: sublist_order.order_trans)

lemma no_long_silence_short: "length xs \<le> silenceDuration \<Longrightarrow> no_long_silence xs"
  unfolding no_long_silence_def using sublist_length_le by fastforce

lemma no_long_silence_Nil: "no_long_silence []"
  by (simp add: no_long_silence_def)

lemma sublist_before_loud:
  assumes "sublist q (r @ [l])" and "\<forall>x \<in> set q. silent x" and "\<not> silent l"
  shows "sublist q r"
proof -
  from assms(1) obtain ps ss where e: "r @ [l] = ps @ q @ ss"
    by (auto simp: sublist_def)
  show ?thesis
  proof (cases ss rule: rev_cases)
    case Nil
    show ?thesis
    proof (cases q rule: rev_cases)
      case Nil
      then show ?thesis by simp
    next
      case (snoc q' y)
      with e \<open>ss = []\<close> have "y = l" by simp
      with snoc assms(2,3) show ?thesis by simp
    qed
  next
    case (snoc ss' y)
    with e have "r = ps @ q @ ss'" by simp
    then show ?thesis by (simp add: sublist_def) blast
  qed
qed

lemma no_long_silence_run_then_loud:
  assumes "length r \<le> silenceDuration" and "\<not> silent l"
  shows "no_long_silence (r @ [l])"
  unfolding no_long_silence_def
proof (intro ballI impI)
  fix q assume "q \<in> set (sublists (r @ [l]))" and s: "\<forall>x \<in> set q. silent x"
  then have "sublist q (r @ [l])" by simp
  from sublist_before_loud [OF this s assms(2)] have "length q \<le> length r"
    by (rule sublist_length_le)
  then show "length q \<le> silenceDuration" using assms(1) by simp
qed

lemma replicate_join: "replicate n x @ replicate k x @ ys = replicate (n + k) x @ ys"
  by (simp add: replicate_add)

text \<open>
  Over samples without a long silence the boundaries stay as they are; the count is the
  length of a silent run that ends the samples scanned so far.
\<close>

lemma scan_fn_quiet:
  assumes "\<forall>x \<in> set pre. silent x" and "silenceCount d = length pre"
    and "no_long_silence (pre @ xs)"
  shows "\<exists>pre'. (\<forall>x \<in> set pre'. silent x) \<and> suffix pre' (pre @ xs) \<and>
           scan_fn f p xs d = d\<lparr>silenceCount := length pre'\<rparr>"
  using assms
proof (induction xs arbitrary: pre d p)
  case Nil
  then show ?case by (intro exI [of _ pre]) simp
next
  case (Cons x xs)
  show ?case
  proof (cases "silent x")
    case True
    have a: "\<forall>y \<in> set (pre @ [x]). silent y" using Cons.prems(1) True by simp
    have b: "silenceCount (sample_step 0 (f p) x d) = length (pre @ [x])"
      using Cons.prems(2) True by (simp add: sample_step_silent)
    have c: "no_long_silence ((pre @ [x]) @ xs)" using Cons.prems(3) by simp
    from Cons.IH [OF a b c, of "Suc p"] obtain pre' where
      r: "\<forall>y \<in> set pre'. silent y" "suffix pre' ((pre @ [x]) @ xs)"
         "scan_fn f (Suc p) xs (sample_step 0 (f p) x d) =
            (sample_step 0 (f p) x d)\<lparr>silenceCount := length pre'\<rparr>"
      by blast
    show ?thesis
      using r True by (intro exI [of _ pre']) (simp add: sample_step_silent)
  next
    case False
    have "sublist pre (pre @ x # xs)" by (simp add: sublist_append_rightI)
    then have le: "silenceCount d \<le> silenceDuration"
      using no_long_silenceD [OF Cons.prems(3)] Cons.prems(1,2) by simp
    have step: "sample_step 0 (f p) x d = d\<lparr>silenceCount := 0\<rparr>"
      using False le by (simp add: sample_step_loud)
    have a: "\<forall>y \<in> set ([]::sample list). silent y" by simp
    have b: "silenceCount (sample_step 0 (f p) x d) = length ([]::sample list)"
      using step by simp
    have "sublist xs (pre @ x # xs)"
      using sublist_appendI [of xs "pre @ [x]" "[]"] by simp
    then have c: "no_long_silence ([] @ xs)"
      using no_long_silence_sublist [OF Cons.prems(3)] by simp
    from Cons.IH [OF a b c, of "Suc p"] obtain pre' where
      r: "\<forall>y \<in> set pre'. silent y" "suffix pre' ([] @ xs)"
         "scan_fn f (Suc p) xs (sample_step 0 (f p) x d) =
            (sample_step 0 (f p) x d)\<lparr>silenceCount := length pre'\<rparr>"
      by blast
    have "suffix pre' (pre @ x # xs)"
      using r(2) by (simp add: suffix_appendI suffix_ConsI)
    then show ?thesis
      using r step by (intro exI [of _ pre']) simp
  qed
qed

lemma scan_fn_tail:
  assumes "no_long_silence t" and "silenceCount d = 0"
  shows "start (scan_fn f p t d) = start d \<and> endp (scan_fn f p t d) = endp d"
proof -
  have "\<forall>x \<in> set ([]::sample list). silent x" "silenceCount d = length ([]::sample list)"
    "no_long_silence ([] @ t)" using assms by simp_all
  from scan_fn_quiet [OF this, of f p] obtain pre' :: "sample list" where
    "scan_fn f p t d = d\<lparr>silenceCount := length pre'\<rparr>" by auto
  then show ?thesis by simp
qed

text \<open>
  A silent run that a non-silent sample ends sets a boundary exactly when it is longer
  than \<open>silenceDuration\<close>, provided the run is whole: the count is 0 where it begins.
\<close>

lemma scan_fn_run:
  assumes "list_all silent r" and "\<not> silent l" and "silenceCount d = 0"
  shows "scan_fn f p (r @ [l]) d =
           (if silenceDuration < length r
            then \<lparr>start = endp d, endp = int (f (p + length r)), silenceCount = 0\<rparr>
            else d)"
proof -
  have r: "\<forall>x \<in> set r. silent x" using assms(1) by (simp add: list_all_iff)
  show ?thesis
    using assms(2,3)
    by (simp add: scan_fn_append scan_fn_silent_run [OF r] sample_step_loud)
qed

lemma scan_fn_segment:
  assumes "qualifying (g, r, l)" and "silenceCount d = 0"
  shows "scan_fn f p (seg_samples (g, r, l)) d =
           \<lparr>start = endp d, endp = int (f (p + length g + length r)), silenceCount = 0\<rparr>"
proof -
  from assms(1) have q: "no_long_silence g" "\<forall>x \<in> set r. silent x" "silenceDuration < length r" "\<not> silent l"
    by (simp_all add: qualifying_def list_all_iff)
  have "\<forall>x \<in> set ([]::sample list). silent x" "silenceCount d = length ([]::sample list)"
    "no_long_silence ([] @ g)" using assms(2) q(1) by simp_all
  from scan_fn_quiet [OF this, of f p] obtain pre' :: "sample list" where
    g: "scan_fn f p g d = d\<lparr>silenceCount := length pre'\<rparr>" by auto
  define d2 where "d2 = scan_fn f (p + length g) r (scan_fn f p g d)"
  have d2: "d2 = d\<lparr>silenceCount := length pre' + length r\<rparr>"
    unfolding d2_def g using scan_fn_silent_run [OF q(2)] by simp
  have "scan_fn f p (seg_samples (g, r, l)) d = sample_step 0 (f (p + length g + length r)) l d2"
    by (simp add: seg_samples_def scan_fn_append d2_def)
  also have "\<dots> = d2\<lparr>start := endp d2, endp := int (f (p + length g + length r)), silenceCount := 0\<rparr>"
    using q(3,4) d2 by (simp add: sample_step_loud)
  finally show ?thesis using d2 by simp
qed

lemma run_end_0: "run_end ((g, r, l) # segs) 0 = length g + length r"
  by (simp add: run_end_def)

lemma run_end_Suc: "run_end (sg # segs) (Suc m) = length (seg_samples sg) + run_end segs m"
  by (simp add: run_end_def)

lemma scan_fn_segments:
  assumes "segs \<noteq> []" and "list_all qualifying segs" and "silenceCount d = 0"
  shows "scan_fn f p (concat (map seg_samples segs)) d =
           \<lparr>start = (if length segs = 1 then endp d
                     else int (f (p + run_end segs (length segs - 2)))),
            endp = int (f (p + run_end segs (length segs - 1))), silenceCount = 0\<rparr>"
  using assms
proof (induction segs arbitrary: p d)
  case Nil
  then show ?case by simp
next
  case (Cons sg segs)
  obtain g r l where sg: "sg = (g, r, l)" by (cases sg) auto
  have q: "qualifying (g, r, l)" using Cons.prems(2) sg by simp
  define d1 where "d1 = scan_fn f p (seg_samples sg) d"
  have d1: "d1 = \<lparr>start = endp d, endp = int (f (p + length g + length r)), silenceCount = 0\<rparr>"
    unfolding d1_def sg by (rule scan_fn_segment [OF q Cons.prems(3)])
  have whole: "scan_fn f p (concat (map seg_samples (sg # segs))) d =
          scan_fn f (p + length (seg_samples sg)) (concat (map seg_samples segs)) d1"
    by (simp add: scan_fn_append d1_def)
  show ?case
  proof (cases "segs = []")
    case True
    then show ?thesis using whole d1 sg by (simp add: run_end_0 add.assoc)
  next
    case False
    have qs: "list_all qualifying segs" using Cons.prems(2) by simp
    have c0: "silenceCount d1 = 0" using d1 by simp
    obtain n where n: "length segs = Suc n" using False by (cases segs) auto
    have ih: "scan_fn f (p + length (seg_samples sg)) (concat (map seg_samples segs)) d1 =
           \<lparr>start = (if length segs = 1 then endp d1
                     else int (f (p + length (seg_samples sg) + run_end segs (length segs - 2)))),
            endp = int (f (p + length (seg_samples sg) + run_end segs (length segs - 1))),
            silenceCount = 0\<rparr>"
      by (rule Cons.IH [OF False qs c0])
    show ?thesis
    proof (cases n)
      case 0
      then show ?thesis
        using whole ih n d1 sg by (simp add: run_end_0 run_end_Suc add.assoc)
    next
      case (Suc n')
      then show ?thesis
        using whole ih n by (simp add: run_end_Suc add.assoc)
    qed
  qed
qed

text \<open>The boundaries are ordered all along the scan.\<close>

lemma sample_step_ordered:
  assumes "0 \<le> start d" "start d \<le> endp d" "endp d \<le> int (i * 1024 + j)"
  shows "0 \<le> start (sample_step i j x d) \<and> start (sample_step i j x d) \<le> endp (sample_step i j x d)
         \<and> endp (sample_step i j x d) \<le> int (i * 1024 + Suc j)"
  using assms by (simp add: sample_step_def Let_def)

lemma scan_buffer_ordered:
  assumes "0 \<le> start d" "start d \<le> endp d" "endp d \<le> int (i * 1024 + j)"
  shows "0 \<le> start (scan_buffer i j xs d) \<and> start (scan_buffer i j xs d) \<le> endp (scan_buffer i j xs d)
         \<and> endp (scan_buffer i j xs d) \<le> int (i * 1024 + j + length xs)"
  using assms
proof (induction xs arbitrary: j d)
  case Nil
  then show ?case by simp
next
  case (Cons x xs)
  from sample_step_ordered [OF Cons.prems, of x]
  have s: "0 \<le> start (sample_step i j x d)" "start (sample_step i j x d) \<le> endp (sample_step i j x d)"
    "endp (sample_step i j x d) \<le> int (i * 1024 + Suc j)" by simp_all
  from Cons.IH [OF s] show ?case by simp
qed

lemma scan_batches_ordered:
  assumes "0 \<le> start d" "start d \<le> endp d" "endp d \<le> int (i * 1024)"
    and "\<forall>b \<in> set bs. length b \<le> 1024"
  shows "0 \<le> start (scan_batches i bs d) \<and> start (scan_batches i bs d) \<le> endp (scan_batches i bs d)"
  using assms
proof (induction bs arbitrary: i d)
  case Nil
  then show ?case by simp
next
  case (Cons b bs)
  have e: "endp d \<le> int (i * 1024 + 0)" using Cons.prems(3) by simp
  from scan_buffer_ordered [OF Cons.prems(1,2) e, of b]
  have s: "0 \<le> start (scan_buffer i 0 b d)" "start (scan_buffer i 0 b d) \<le> endp (scan_buffer i 0 b d)"
    "endp (scan_buffer i 0 b d) \<le> int (i * 1024 + 0 + length b)" by simp_all
  have "length b \<le> 1024" using Cons.prems(4) by simp
  then have s3: "endp (scan_buffer i 0 b d) \<le> int (Suc i * 1024)" using s(3) by simp
  have "\<forall>b \<in> set bs. length b \<le> 1024" using Cons.prems(4) by simp
  from Cons.IH [OF s(1,2) s3 this] show ?case by simp
qed

section \<open>The outer loop of the detector\<close>

lemma detect_loop_delivers:
  assumes "delivers S s bs s'" and "\<forall>b \<in> set bs. length b \<le> 1024"
  shows "detect_loop S i s d = Some (Inr (scan_batches i bs d, s'))"
  using assms
proof (induction bs arbitrary: s i d)
  case Nil
  then show ?case
    by (subst detect_loop.simps) (auto split: prod.splits)
next
  case (Cons b bs)
  obtain t where t: "Stream S s 1024 = ((b, True), t)" "b \<noteq> []" "delivers S t bs s'"
    using Cons.prems(1) by (auto split: prod.splits)
  have len: "length b \<le> 1024" "\<forall>b \<in> set bs. length b \<le> 1024"
    using Cons.prems(2) by simp_all
  have "detect_loop S i s d = detect_loop S (Suc i) t (scan_buffer i 0 b d)"
    using t(1,2) len(1) by (subst detect_loop.simps) simp
  then show ?case
    using Cons.IH [OF t(3) len(2)] by simp
qed

lemma detect_loop_returns:
  assumes "detect_loop S i s d = Some (Inr (d', s'))"
  shows "\<exists>bs. delivers S s bs s' \<and> (\<forall>b \<in> set bs. length b \<le> 1024) \<and> d' = scan_batches i bs d"
proof -
  have "detect_loop S i s d = Some y \<Longrightarrow>
        (\<forall>d' s'. y = Inr (d', s') \<longrightarrow>
           (\<exists>bs. delivers S s bs s' \<and> (\<forall>b \<in> set bs. length b \<le> 1024) \<and> d' = scan_batches i bs d))" for y
  proof (induction rule: detect_loop.raw_induct [rotated 1, consumes 1])
    case (1 loop S i s d y)
    obtain buf ok t where st: "Stream S s 1024 = ((buf, ok), t)"
      by (metis surj_pair)
    show ?case
    proof (cases "\<not> ok \<or> length buf = 0")
      case True
      then have "y = Inr (d, t)" using 1(2) st by simp
      moreover have "delivers S s [] t" using True st by simp
      ultimately show ?thesis by (metis empty_iff list.set(1) scan_batches.simps(1) Pair_inject sum.inject(2))
    next
      case False
      show ?thesis
      proof (cases "length buf > 1024")
        case True
        then have "y = Inl IndexOutOfRange" using 1(2) st False by simp
        then show ?thesis by simp
      next
        case big: False
        have rec: "loop S (Suc i) t (scan_buffer i 0 buf d) = Some y"
          using 1(2) st False big by simp
        show ?thesis
        proof (intro allI impI)
          fix d' s' assume y: "y = Inr (d', s')"
          from 1(1) [OF rec] y obtain bs where
            bs: "delivers S t bs s'" "\<forall>b \<in> set bs. length b \<le> 1024"
                "d' = scan_batches (Suc i) bs (scan_buffer i 0 buf d)"
            by blast
          have "delivers S s (buf # bs) s'" using st False bs(1) by simp
          moreover have "\<forall>b \<in> set (buf # bs). length b \<le> 1024" using big bs(2) by simp
          moreover have "d' = scan_batches i (buf # bs) d" using bs(3) by simp
          ultimately show "\<exists>bs. delivers S s bs s' \<and> (\<forall>b \<in> set bs. length b \<le> 1024) \<and> d' = scan_batches i bs d"
            by blast
        qed
      qed
    qed
  qed
  then show ?thesis using assms by blast
qed

lemma detect_delivers:
  assumes "delivers S s bs s'" and "\<forall>b \<in> set bs. length b \<le> 1024"
  shows "detectLoopSegment S s =
           Some (Inr ((start (scan_batches 0 bs detector_init),
                       endp (scan_batches 0 bs detector_init)), s'))"
  using detect_loop_delivers [OF assms, of 0 detector_init]
  by (simp add: detectLoopSegment_def detector_init_def)

lemma detect_returns:
  assumes "detectLoopSegment S s = Some (Inr ((a, b), s'))"
  shows "\<exists>bs. delivers S s bs s' \<and> (\<forall>b \<in> set bs. length b \<le> 1024) \<and>
           a = start (scan_batches 0 bs detector_init) \<and> b = endp (scan_batches 0 bs detector_init)"
proof -
  from assms obtain d where d: "detect_loop S 0 s detector_init = Some (Inr (d, s'))"
    and ab: "a = start d" "b = endp d"
    by (auto simp: detectLoopSegment_def detector_init_def split: option.splits sum.splits)
  from detect_loop_returns [OF d] ab show ?thesis by blast
qed

lemma delivers_nonempty: "delivers S s bs s' \<Longrightarrow> \<forall>b \<in> set bs. b \<noteq> []"
  by (induction bs arbitrary: s) (auto split: prod.splits)

lemma script_delivers:
  "\<forall>b \<in> set bs. b \<noteq> [] \<Longrightarrow> delivers script_streamer (map (\<lambda>b. (b, True)) bs) bs []"
  by (induction bs) (simp_all add: script_streamer_def script_Stream_def)

section \<open>The detector on the in-memory stream\<close>

lemma mem_detect_loop:
  assumes "cursor m = i * 1024 \<or> length (frames m) \<le> cursor m"
  shows "detect_loop mem_streamer i m d =
           Some (Inr (scan_buffer 0 (cursor m) (drop (cursor m) (frames m)) d,
                      m\<lparr>cursor := max (cursor m) (length (frames m))\<rparr>))"
  using assms
proof (induction "length (frames m) - cursor m" arbitrary: m i d rule: less_induct)
  case less
  let ?xs = "frames m" and ?c = "cursor m"
  show ?case
  proof (cases "length ?xs \<le> ?c")
    case True
    then have "Stream mem_streamer m 1024 = (([], False), m)"
      by (simp add: mem_streamer_def mem_Stream_def)
    then have "detect_loop mem_streamer i m d = Some (Inr (d, m))"
      by (subst detect_loop.simps) simp
    moreover have "m\<lparr>cursor := max ?c (length ?xs)\<rparr> = m" using True by (simp add: max_def)
    ultimately show ?thesis using True by simp
  next
    case False
    then have c: "?c = i * 1024" using less.prems by simp
    define buf where "buf = take 1024 (drop ?c ?xs)"
    define m' where "m' = m\<lparr>cursor := ?c + length buf\<rparr>"
    have ne: "buf \<noteq> []" using False by (simp add: buf_def)
    have le: "length buf \<le> 1024" by (simp add: buf_def)
    have st: "Stream mem_streamer m 1024 = ((buf, True), m')"
      using ne by (simp add: mem_streamer_def mem_Stream_def buf_def m'_def Let_def)
    have step: "detect_loop mem_streamer i m d = detect_loop mem_streamer (Suc i) m' (scan_buffer i 0 buf d)"
      using st ne le by (subst detect_loop.simps) simp
    have fr: "frames m' = ?xs" and cu: "cursor m' = ?c + length buf"
      by (simp_all add: m'_def)
    have dec: "length (frames m') - cursor m' < length ?xs - ?c"
      using False ne fr cu by (cases buf) simp_all
    have pre: "cursor m' = Suc i * 1024 \<or> length (frames m') \<le> cursor m'"
      using c fr cu by (auto simp: buf_def min_def)
    have rest: "drop (?c + length buf) ?xs = drop 1024 (drop ?c ?xs)"
      unfolding buf_def by (auto simp: min_def add.commute)
    have "scan_buffer 0 ?c (drop ?c ?xs) d
            = scan_buffer 0 ?c (buf @ drop 1024 (drop ?c ?xs)) d"
      by (simp only: buf_def append_take_drop_id)
    also have "\<dots> = scan_buffer 0 (?c + length buf) (drop 1024 (drop ?c ?xs)) (scan_buffer 0 ?c buf d)"
      by (rule scan_buffer_append)
    also have "\<dots> = scan_buffer 0 (cursor m') (drop (cursor m') ?xs) (scan_buffer 0 ?c buf d)"
      by (simp only: rest cu)
    also have "scan_buffer 0 ?c buf d = scan_buffer i 0 buf d"
      using scan_buffer_shift [of i 0 buf d] c by simp
    finally have flat: "scan_buffer 0 (cursor m') (drop (cursor m') (frames m')) (scan_buffer i 0 buf d)
                  = scan_buffer 0 ?c (drop ?c ?xs) d"
      using fr by simp
    have fin: "m'\<lparr>cursor := max (cursor m') (length (frames m'))\<rparr> = m\<lparr>cursor := max ?c (length ?xs)\<rparr>"
      using False by (auto simp: m'_def buf_def max_def min_def)
    show ?thesis
      using less.hyps [OF dec pre, of "scan_buffer i 0 buf d"] step flat fin by simp
  qed
qed

lemma mem_detect:
  "detectLoopSegment mem_streamer (mem_of xs) =
     Some (Inr ((start (scan_buffer 0 0 xs detector_init), endp (scan_buffer 0 0 xs detector_init)),
                \<lparr>frames = xs, cursor = length xs\<rparr>))"
proof -
  have "detect_loop mem_streamer 0 (mem_of xs) detector_init =
          Some (Inr (scan_buffer 0 0 xs detector_init, \<lparr>frames = xs, cursor = length xs\<rparr>))"
    using mem_detect_loop [of "mem_of xs" 0 detector_init] by (simp add: mem_of_def)
  then show ?thesis
    by (simp add: detectLoopSegment_def detector_init_def)
qed

lemma mem_delivers:
  "\<exists>bs c'. delivers mem_streamer m bs (m\<lparr>cursor := c'\<rparr>) \<and> (\<forall>b \<in> set bs. length b \<le> 1024)"
proof (induction "length (frames m) - cursor m" arbitrary: m rule: less_induct)
  case less
  show ?case
  proof (cases "length (frames m) \<le> cursor m")
    case True
    then have "Stream mem_streamer m 1024 = (([], False), m)"
      by (simp add: mem_streamer_def mem_Stream_def)
    then have "delivers mem_streamer m [] (m\<lparr>cursor := cursor m\<rparr>)" by simp
    then show ?thesis by (metis empty_iff list.set(1))
  next
    case False
    define buf where "buf = take 1024 (drop (cursor m) (frames m))"
    define m1 where "m1 = m\<lparr>cursor := cursor m + length buf\<rparr>"
    have ne: "buf \<noteq> []" using False by (simp add: buf_def)
    have le: "length buf \<le> 1024" by (simp add: buf_def)
    have st: "Stream mem_streamer m 1024 = ((buf, True), m1)"
      using ne by (simp add: mem_streamer_def mem_Stream_def buf_def m1_def Let_def)
    have dec: "length (frames m1) - cursor m1 < length (frames m) - cursor m"
      using False ne by (cases buf) (simp_all add: m1_def)
    from less [OF dec] obtain bs c' where
      r: "delivers mem_streamer m1 bs (m1\<lparr>cursor := c'\<rparr>)" "\<forall>b \<in> set bs. length b \<le> 1024"
      by blast
    have "m1\<lparr>cursor := c'\<rparr> = m\<lparr>cursor := c'\<rparr>" by (simp add: m1_def)
    then have "delivers mem_streamer m (buf # bs) (m\<lparr>cursor := c'\<rparr>)"
      using st ne r(1) by simp
    moreover have "\<forall>b \<in> set (buf # bs). length b \<le> 1024" using le r(2) by simp
    ultimately show ?thesis by blast
  qed
qed

lemma mem_detect_total: "\<exists>r. detectLoopSegment mem_streamer m = Some (Inr r)"
proof -
  from mem_delivers [of m] obtain bs c' where
    "delivers mem_streamer m bs (m\<lparr>cursor := c'\<rparr>)" "\<forall>b \<in> set bs. length b \<le> 1024"
    by blast
  from detect_delivers [OF this] show ?thesis by blast
qed

lemma mem_detect_fn:
  "detectLoopSegment mem_streamer (mem_of xs) =
     Some (Inr ((start (scan_fn (\<lambda>q. q) 0 xs detector_init),
                 endp (scan_fn (\<lambda>q. q) 0 xs detector_init)),
                \<lparr>frames = xs, cursor = length xs\<rparr>))"
proof -
  have "scan_buffer 0 0 xs d = scan_fn (\<lambda>q. q) 0 xs d" for d
    unfolding scan_buffer_fn by (rule scan_fn_eq) simp
  then show ?thesis unfolding mem_detect by simp
qed

text \<open>The result on a stream that is made of qualifying stretches and a rest.\<close>

lemma detect_segments:
  assumes "delivers S s bs s'" and "\<forall>b \<in> set bs. length b \<le> 1024"
    and "concat bs = concat (map seg_samples segs) @ t"
    and "segs \<noteq> []" and "list_all qualifying segs" and "no_long_silence t"
  shows "detectLoopSegment S s =
           Some (Inr ((if length segs = 1 then 0
                       else int (stamp 0 bs (run_end segs (length segs - 2))),
                       int (stamp 0 bs (run_end segs (length segs - 1)))), s'))"
proof -
  let ?xs = "concat (map seg_samples segs)" and ?f = "stamp 0 bs"
  define d1 where "d1 = scan_fn ?f 0 ?xs detector_init"
  have c0: "silenceCount detector_init = 0" by (simp add: detector_init_def)
  have d1: "d1 = \<lparr>start = (if length segs = 1 then 0
                            else int (?f (run_end segs (length segs - 2)))),
                   endp = int (?f (run_end segs (length segs - 1))), silenceCount = 0\<rparr>"
    unfolding d1_def using scan_fn_segments [OF assms(4,5) c0, of ?f 0]
    by (simp add: detector_init_def)
  have c1: "silenceCount d1 = 0" using d1 by simp
  have "scan_batches 0 bs detector_init = scan_fn ?f (0 + length ?xs) t d1"
    unfolding scan_batches_fn assms(3) d1_def by (rule scan_fn_append)
  with scan_fn_tail [OF assms(6) c1, of ?f "0 + length ?xs"]
  have "start (scan_batches 0 bs detector_init) = start d1"
       "endp (scan_batches 0 bs detector_init) = endp d1" by simp_all
  then show ?thesis
    unfolding detect_delivers [OF assms(1,2)] using d1 by simp
qed

lemma mem_detect_segments:
  assumes "segs \<noteq> []" and "list_all qualifying segs" and "no_long_silence t"
  shows "detectLoopSegment mem_streamer (mem_of (concat (map seg_samples segs) @ t)) =
           Some (Inr ((if length segs = 1 then 0 else int (run_end segs (length segs - 2)),
                       int (run_end segs (length segs - 1))),
                      \<lparr>frames = concat (map seg_samples segs) @ t,
                       cursor = length (concat (map seg_samples segs) @ t)\<rparr>))"
proof -
  let ?xs = "concat (map seg_samples segs)"
  define d1 where "d1 = scan_fn (\<lambda>q. q) 0 ?xs detector_init"
  have c0: "silenceCount detector_init = 0" by (simp add: detector_init_def)
  have d1: "d1 = \<lparr>start = (if length segs = 1 then 0 else int (run_end segs (length segs - 2))),
                   endp = int (run_end segs (length segs - 1)), silenceCount = 0\<rparr>"
    unfolding d1_def using scan_fn_segments [OF assms(1,2) c0, of "\<lambda>q. q" 0]
    by (simp add: detector_init_def)
  have c1: "silenceCount d1 = 0" using d1 by simp
  have "scan_fn (\<lambda>q. q) 0 (?xs @ t) detector_init = scan_fn (\<lambda>q. q) (0 + length ?xs) t d1"
    unfolding d1_def by (rule scan_fn_append)
  with scan_fn_tail [OF assms(3) c1, of "\<lambda>q. q" "0 + length ?xs"]
  have "start (scan_fn (\<lambda>q. q) 0 (?xs @ t) detector_init) = start d1"
       "endp (scan_fn (\<lambda>q. q) 0 (?xs @ t) detector_init) = endp d1" by simp_all
  then show ?thesis
    unfolding mem_detect_fn using d1 by simp
qed

lemma mem_detect_two_segments:
  assumes "qualifying (g1, r1, l1)" and "qualifying (g2, r2, l2)" and "no_long_silence t"
  shows "detectLoopSegment mem_streamer (mem_of (g1 @ r1 @ [l1] @ g2 @ r2 @ [l2] @ t)) =
           Some (Inr ((int (length g1 + length r1),
                       int (length g1 + length r1 + 1 + length g2 + length r2)),
                      \<lparr>frames = g1 @ r1 @ [l1] @ g2 @ r2 @ [l2] @ t,
                       cursor = length (g1 @ r1 @ [l1] @ g2 @ r2 @ [l2] @ t)\<rparr>))"
proof -
  have ne: "[(g1, r1, l1), (g2, r2, l2)] \<noteq> []" by simp
  have q: "list_all qualifying [(g1, r1, l1), (g2, r2, l2)]" using assms(1,2) by simp
  show ?thesis
    using mem_detect_segments [OF ne q assms(3)]
    by (simp add: seg_samples_def run_end_def)
qed

text \<open>
  After samples that end with a non-silent one (or after none), a whole silent run and
  the non-silent sample that ends it change the result exactly when the run is longer
  than \<open>silenceDuration\<close>.
\<close>

lemma mem_detect_run:
  assumes "pre = [] \<or> \<not> silent (last pre)" and "list_all silent r" and "\<not> silent l"
    and "detectLoopSegment mem_streamer (mem_of pre) = Some (Inr ((a, b), m))"
  shows "detectLoopSegment mem_streamer (mem_of (pre @ r @ [l])) =
           Some (Inr ((if silenceDuration < length r then (b, int (length pre + length r))
                       else (a, b)),
                      \<lparr>frames = pre @ r @ [l], cursor = length (pre @ r @ [l])\<rparr>))"
proof -
  define d where "d = scan_fn (\<lambda>q. q) 0 pre detector_init"
  have ab: "a = start d" "b = endp d"
    using assms(4) unfolding mem_detect_fn d_def by simp_all
  have c: "silenceCount d = 0"
  proof (cases "pre = []")
    case True
    then show ?thesis by (simp add: d_def detector_init_def)
  next
    case False
    then have "pre = butlast pre @ [last pre]" and "\<not> silent (last pre)"
      using assms(1) by simp_all
    then show ?thesis
      unfolding d_def using scan_fn_ends_loud [of "last pre" "\<lambda>q. q" 0 "butlast pre"]
      by simp
  qed
  have "scan_fn (\<lambda>q. q) 0 (pre @ r @ [l]) detector_init =
          scan_fn (\<lambda>q. q) (0 + length pre) (r @ [l]) d"
    unfolding d_def by (rule scan_fn_append)
  also have "\<dots> = (if silenceDuration < length r
            then \<lparr>start = endp d, endp = int (0 + length pre + length r), silenceCount = 0\<rparr>
            else d)"
    by (rule scan_fn_run [OF assms(2,3) c])
  finally show ?thesis
    unfolding mem_detect_fn [of "pre @ r @ [l]"] using ab by simp
qed

text \<open>The same on any stream, with the indices the detector computes for the pulls.\<close>

lemma detect_run:
  assumes "delivers S s bs s'" and "\<forall>b \<in> set bs. length b \<le> 1024"
    and "concat bs = pre @ r @ [l] @ t"
    and "pre = [] \<or> \<not> silent (last pre)" and "list_all silent r" and "\<not> silent l"
    and "no_long_silence t"
  shows "detectLoopSegment S s =
           Some (Inr ((if silenceDuration < length r
                       then (endp (scan_fn (stamp 0 bs) 0 pre detector_init),
                             int (stamp 0 bs (length pre + length r)))
                       else (start (scan_fn (stamp 0 bs) 0 pre detector_init),
                             endp (scan_fn (stamp 0 bs) 0 pre detector_init))), s'))"
proof -
  let ?f = "stamp 0 bs"
  define d where "d = scan_fn ?f 0 pre detector_init"
  define d1 where "d1 = scan_fn ?f (0 + length pre) (r @ [l]) d"
  have c: "silenceCount d = 0"
  proof (cases "pre = []")
    case True
    then show ?thesis by (simp add: d_def detector_init_def)
  next
    case False
    then have "pre = butlast pre @ [last pre]" and "\<not> silent (last pre)"
      using assms(4) by simp_all
    then show ?thesis
      unfolding d_def using scan_fn_ends_loud [of "last pre" ?f 0 "butlast pre"]
      by simp
  qed
  have d1: "d1 = (if silenceDuration < length r
            then \<lparr>start = endp d, endp = int (?f (0 + length pre + length r)), silenceCount = 0\<rparr>
            else d)"
    unfolding d1_def by (rule scan_fn_run [OF assms(5,6) c])
  have c1: "silenceCount d1 = 0" using d1 c by simp
  have "scan_fn ?f 0 ((pre @ r @ [l]) @ t) detector_init =
          scan_fn ?f (0 + length (pre @ r @ [l])) t (scan_fn ?f 0 (pre @ r @ [l]) detector_init)"
    by (rule scan_fn_append)
  also have "scan_fn ?f 0 (pre @ r @ [l]) detector_init = d1"
    unfolding d1_def d_def by (rule scan_fn_append)
  finally have "scan_batches 0 bs detector_init = scan_fn ?f (0 + length (pre @ r @ [l])) t d1"
    unfolding scan_batches_fn assms(3) by simp
  with scan_fn_tail [OF assms(7) c1, of ?f "0 + length (pre @ r @ [l])"]
  have "start (scan_batches 0 bs detector_init) = start d1"
       "endp (scan_batches 0 bs detector_init) = endp d1" by simp_all
  then show ?thesis
    unfolding detect_delivers [OF assms(1,2)] using d1 by (simp add: d_def)
qed

section \<open>Lemmas on the packing and the play loop\<close>

lemma int16_bytes_length: "length (int16_bytes w) = 2"
  by (simp add: int16_bytes_def)

lemma pcm_bytes_length: "length (pcm_bytes oor x) = 4"
  by (simp add: pcm_bytes_def int16_bytes_def)

lemma length_concat_pcm: "length (concat (map (pcm_bytes oor) xs)) = 4 * length xs"
  by (induction xs) (simp_all add: pcm_bytes_length)

lemma store_sample:
  assumes "length A = i * 4"
  shows "fold (\<lambda>ch. store_channel oor buffer i ch) [0..<2] (A @ 0 # 0 # 0 # 0 # R) =
         A @ pcm_bytes oor (buffer ! i) @ R"
proof -
  have u: "[0..<2] = [0, Suc 0]" by (simp add: upt_rec numeral_2_eq_2)
  show ?thesis
    unfolding u using assms
    by (simp add: store_channel_def channel_def pcm_bytes_def int16_bytes_def list_update_append Let_def)
qed

lemma fill_prefix:
  assumes "k \<le> length buf"
  shows "fold (\<lambda>i wb. fold (\<lambda>ch. store_channel oor buf i ch) [0..<2] wb) [0..<k]
           (replicate (length buf * 4) 0) =
         concat (map (pcm_bytes oor) (take k buf)) @ replicate ((length buf - k) * 4) 0"
  using assms
proof (induction k)
  case 0
  then show ?case by simp
next
  case (Suc k)
  have k: "k < length buf" using Suc.prems by simp
  obtain n where n: "length buf - k = Suc n" using k by (cases "length buf - k") auto
  have n': "length buf - Suc k = n" using n by simp
  have rep: "replicate ((length buf - k) * 4) (0::byte) = 0 # 0 # 0 # 0 # replicate (n * 4) 0"
  proof -
    have "Suc n * 4 = Suc (Suc (Suc (Suc (n * 4))))" by simp
    then show ?thesis unfolding n by (simp only: replicate_Suc)
  qed
  have len: "length (concat (map (pcm_bytes oor) (take k buf))) = k * 4"
    using k by (simp add: length_concat_pcm)
  have tk: "take (Suc k) buf = take k buf @ [buf ! k]"
    using k by (simp add: take_Suc_conv_app_nth)
  have "fold (\<lambda>i wb. fold (\<lambda>ch. store_channel oor buf i ch) [0..<2] wb) [0..<Suc k]
           (replicate (length buf * 4) 0) =
        fold (\<lambda>ch. store_channel oor buf k ch) [0..<2]
          (concat (map (pcm_bytes oor) (take k buf)) @ replicate ((length buf - k) * 4) 0)"
    using Suc.IH k by simp
  also have "\<dots> = concat (map (pcm_bytes oor) (take k buf)) @ pcm_bytes oor (buf ! k) @ replicate (n * 4) 0"
    unfolding rep by (rule store_sample [OF len])
  finally show ?case unfolding n' tk by simp
qed

lemma fill_writeBuffer_pcm: "fill_writeBuffer oor buf (length buf) = concat (map (pcm_bytes oor) buf)"
  using fill_prefix [of "length buf" buf] by (simp add: fill_writeBuffer_def)

lemma fill_writeBuffer_single: "fill_writeBuffer oor [x] (Suc 0) = pcm_bytes oor x"
  using fill_writeBuffer_pcm [of oor "[x]"] by simp

lemma play_done:
  "segmentLength \<le> int k \<Longrightarrow> playAudioSegment_loop oor S segmentLength k s snk = Inr (s, snk)"
  by (subst playAudioSegment_loop.simps) simp

lemma play_drained:
  assumes "Stream S s 1024 = ((buf, ok), s')" and "\<not> ok \<or> buf = []"
  shows "playAudioSegment_loop oor S segmentLength k s snk =
           Inr (if int k < segmentLength then s' else s, snk)"
  using assms by (subst playAudioSegment_loop.simps) auto

lemma play_step:
  assumes "int k < segmentLength" and "Stream S s 1024 = ((buf, True), s')"
    and "buf \<noteq> []" and "length buf \<le> 1024"
  shows "playAudioSegment_loop oor S segmentLength k s snk =
           playAudioSegment_loop oor S segmentLength (k + length buf) s'
             (snk @ [concat (map (pcm_bytes oor) buf)])"
  using assms by (subst playAudioSegment_loop.simps) (simp add: fill_writeBuffer_pcm)

lemma body_zero:
  assumes "start' = end' \<or>
           (case Stream S (snd (Seek S s start')) 1024 of ((buf, ok), t) \<Rightarrow> \<not> ok \<or> buf = [])"
  shows "\<exists>s'. seamlessLoop_body oor S start' end' s snk = Inr (s', snk)"
proof (cases "start' = end'")
  case True
  then show ?thesis
    by (simp add: seamlessLoop_body_def playAudioSegment_def play_done)
next
  case False
  obtain buf ok t where st: "Stream S (snd (Seek S s start')) 1024 = ((buf, ok), t)"
    by (metis surj_pair)
  then have "\<not> ok \<or> buf = []" using assms False by simp
  from play_drained [OF st this] show ?thesis
    by (simp add: seamlessLoop_body_def playAudioSegment_def)
qed

lemma seamlessLoop_spins:
  assumes "start' = end' \<or>
           (\<forall>s. case Stream S (snd (Seek S s start')) 1024 of ((buf, ok), t) \<Rightarrow> \<not> ok \<or> buf = [])"
  shows "\<exists>s'. seamlessLoop_upto k oor S start' end' s snk = Inr (s', snk)"
proof (induction k arbitrary: s)
  case 0
  then show ?case by simp
next
  case (Suc k)
  have "start' = end' \<or>
           (case Stream S (snd (Seek S s start')) 1024 of ((buf, ok), t) \<Rightarrow> \<not> ok \<or> buf = [])"
    using assms by (elim disjE) (simp, erule allE [of _ s], simp)
  from body_zero [OF this] obtain s1 where "seamlessLoop_body oor S start' end' s snk = Inr (s1, snk)"
    by blast
  then show ?case using Suc.IH [of s1] by simp
qed

lemma mem_play_loop:
  "\<exists>c' ws. playAudioSegment_loop oor mem_streamer seg k m snk = Inr (m\<lparr>cursor := c'\<rparr>, snk @ ws) \<and>
     cursor m \<le> c' \<and> c' \<le> max (cursor m) (length (frames m)) \<and>
     concat ws = concat (map (pcm_bytes oor) (take (c' - cursor m) (drop (cursor m) (frames m)))) \<and>
     (seg \<le> int (k + (c' - cursor m)) \<or> length (frames m) \<le> c')"
proof (induction "nat (seg - int k)" arbitrary: k m snk rule: less_induct)
  case less
  let ?xs = "frames m" and ?c = "cursor m"
  have same: "m\<lparr>cursor := ?c\<rparr> = m" by simp
  show ?case
  proof (cases "int k < seg")
    case False
    then have "playAudioSegment_loop oor mem_streamer seg k m snk = Inr (m\<lparr>cursor := ?c\<rparr>, snk @ [])"
      by (simp add: play_done)
    then show ?thesis using False
      by (intro exI [of _ ?c] exI [of _ "[]"]) simp
  next
    case True
    show ?thesis
    proof (cases "length ?xs \<le> ?c")
      case drained: True
      then have "Stream mem_streamer m 1024 = (([], False), m)"
        by (simp add: mem_streamer_def mem_Stream_def)
      from play_drained [OF this, of oor seg k snk]
      have "playAudioSegment_loop oor mem_streamer seg k m snk = Inr (m\<lparr>cursor := ?c\<rparr>, snk @ [])"
        by simp
      then show ?thesis using drained
        by (intro exI [of _ ?c] exI [of _ "[]"]) simp
    next
      case False
      define buf where "buf = take 1024 (drop ?c ?xs)"
      define m1 where "m1 = m\<lparr>cursor := ?c + length buf\<rparr>"
      have ne: "buf \<noteq> []" using False by (simp add: buf_def)
      have le: "length buf \<le> 1024" by (simp add: buf_def)
      have lb: "?c + length buf \<le> length ?xs" using False by (simp add: buf_def)
      have pos: "0 < length buf" using ne by simp
      have st: "Stream mem_streamer m 1024 = ((buf, True), m1)"
        using ne by (simp add: mem_streamer_def mem_Stream_def buf_def m1_def Let_def)
      have step: "playAudioSegment_loop oor mem_streamer seg k m snk =
            playAudioSegment_loop oor mem_streamer seg (k + length buf) m1 (snk @ [concat (map (pcm_bytes oor) buf)])"
        by (rule play_step [OF True st ne le])
      have dec: "nat (seg - int (k + length buf)) < nat (seg - int k)"
        using True pos by simp
      from less.hyps [OF dec, of m1 "snk @ [concat (map (pcm_bytes oor) buf)]"]
      obtain c' ws where r:
        "playAudioSegment_loop oor mem_streamer seg (k + length buf) m1 (snk @ [concat (map (pcm_bytes oor) buf)])
           = Inr (m1\<lparr>cursor := c'\<rparr>, (snk @ [concat (map (pcm_bytes oor) buf)]) @ ws)"
        "cursor m1 \<le> c'" "c' \<le> max (cursor m1) (length (frames m1))"
        "concat ws = concat (map (pcm_bytes oor) (take (c' - cursor m1) (drop (cursor m1) (frames m1))))"
        "seg \<le> int (k + length buf + (c' - cursor m1)) \<or> length (frames m1) \<le> c'"
        by blast
      have m1c: "cursor m1 = ?c + length buf" and m1f: "frames m1 = ?xs"
        by (simp_all add: m1_def)
      have upd: "m1\<lparr>cursor := c'\<rparr> = m\<lparr>cursor := c'\<rparr>" by (simp add: m1_def)
      have ge: "?c + length buf \<le> c'" using r(2) m1c by simp
      have bufeq: "buf = take (length buf) (drop ?c ?xs)"
        by (simp add: buf_def min_def)
      have split: "take (c' - ?c) (drop ?c ?xs) =
                     buf @ take (c' - (?c + length buf)) (drop (?c + length buf) ?xs)"
      proof -
        have "c' - ?c = length buf + (c' - (?c + length buf))" using ge by simp
        then have "take (c' - ?c) (drop ?c ?xs) =
              take (length buf) (drop ?c ?xs) @ take (c' - (?c + length buf)) (drop (length buf) (drop ?c ?xs))"
          by (simp only: take_add)
        then show ?thesis using bufeq by (simp add: add.commute)
      qed
      have cc: "concat ([concat (map (pcm_bytes oor) buf)] @ ws) =
                  concat (map (pcm_bytes oor) (take (c' - ?c) (drop ?c ?xs)))"
        unfolding split using r(4) m1c m1f by simp
      have fin: "seg \<le> int (k + (c' - ?c)) \<or> length ?xs \<le> c'"
        using r(5) ge m1c m1f by auto
      have bound: "c' \<le> max ?c (length ?xs)"
        using r(3) lb m1c m1f by (simp add: max_def split: if_splits)
      have res: "playAudioSegment_loop oor mem_streamer seg k m snk =
              Inr (m\<lparr>cursor := c'\<rparr>, snk @ ([concat (map (pcm_bytes oor) buf)] @ ws))"
        using step r(1) upd by simp
      show ?thesis
        using res ge cc fin bound
        by (intro exI [of _ c'] exI [of _ "[concat (map (pcm_bytes oor) buf)] @ ws"]) simp
    qed
  qed
qed

lemma mem_seek_beyond:
  "int (length (frames m)) \<le> p \<Longrightarrow>
   Stream mem_streamer (snd (Seek mem_streamer m p)) 1024 = (([], False), m\<lparr>cursor := nat p\<rparr>)"
  by (simp add: mem_streamer_def mem_Seek_def mem_Stream_def)

lemma mem_body_returns: "\<exists>m' snk'. seamlessLoop_body oor mem_streamer start' end' m snk = Inr (m', snk')"
  using mem_play_loop [of oor "end' - start'" 0 "snd (Seek mem_streamer m start')" snk]
  by (auto simp: seamlessLoop_body_def playAudioSegment_def)

lemma seamlessLoop_never_returns: "seamlessLoop oor mem_streamer start' end' m snk = None"
proof -
  have "seamlessLoop u S a b s k = Some e \<Longrightarrow> S \<noteq> mem_streamer" for u S a b s k e
  proof (induction rule: seamlessLoop.raw_induct [rotated 1, consumes 1])
    case (1 loop u S a b s k e)
    show ?case
    proof
      assume S: "S = mem_streamer"
      from mem_body_returns [of u a b s k] obtain m' k' where
        "seamlessLoop_body u mem_streamer a b s k = Inr (m', k')" by blast
      with 1(2) S have "loop u mem_streamer a b m' k' = Some e" by simp
      from 1(1) [OF this] show False by simp
    qed
  qed
  then have "seamlessLoop oor mem_streamer start' end' m snk \<noteq> Some e" for e
    by blast
  then show ?thesis by (metis option.exhaust)
qed

lemma ten_samples_body:
  "seamlessLoop_body oor mem_streamer 2 5 \<lparr>frames = ten_samples, cursor = c\<rparr> snk =
     Inr (\<lparr>frames = ten_samples, cursor = 10\<rparr>, snk @ [ten_samples_from_2])"
proof -
  let ?m2 = "\<lparr>frames = ten_samples, cursor = 2\<rparr>"
  let ?m10 = "\<lparr>frames = ten_samples, cursor = 10\<rparr>"
  let ?buf = "[opposed, opposed, opposed, quiet, quiet, quiet, quiet, quiet]"
  have sk: "snd (Seek mem_streamer \<lparr>frames = ten_samples, cursor = c\<rparr> 2) = ?m2"
    by (simp add: mem_streamer_def mem_Seek_def)
  have st: "Stream mem_streamer ?m2 1024 = ((?buf, True), ?m10)"
    by (simp add: mem_streamer_def mem_Stream_def ten_samples_def Let_def)
  have pk: "concat (map (pcm_bytes oor) ?buf) = ten_samples_from_2"
    by (simp add: pcm_bytes_extremes ten_samples_from_2_def)
  have "playAudioSegment_loop oor mem_streamer 3 0 ?m2 snk =
          playAudioSegment_loop oor mem_streamer 3 (0 + length ?buf) ?m10 (snk @ [concat (map (pcm_bytes oor) ?buf)])"
    by (rule play_step [OF _ st]) simp_all
  also have "\<dots> = Inr (?m10, snk @ [ten_samples_from_2])"
    unfolding pk by (rule play_done) simp
  finally show ?thesis
    using sk by (simp add: seamlessLoop_body_def playAudioSegment_def)
qed



section \<open>Lemmas on the examples\<close>

lemma qualifying_silence: "silenceDuration < n \<Longrightarrow> qualifying ([], replicate n quiet, loud)"
  by (simp add: qualifying_def list_all_iff silent_quiet loud_not_silent no_long_silence_Nil)

lemma qualifying_4411: "qualifying ([], replicate 4411 quiet, loud)"
  by (rule qualifying_silence) (simp add: silenceDuration_4410)

lemma scan_silent_batch:
  "scan_buffer i j (replicate n quiet) d = d\<lparr>silenceCount := silenceCount d + n\<rparr>"
  unfolding scan_buffer_fn
  using scan_fn_silent_run [of "replicate n quiet" "\<lambda>q. i * 1024 + q" j d]
  by (simp add: silent_quiet)

lemma run_pulls_ok:
  "\<forall>b \<in> set (run_pulls @ run_pulls @ run_pulls). b \<noteq> []"
  "\<forall>b \<in> set (run_pulls @ run_pulls @ run_pulls). length b \<le> 1024"
  "\<forall>b \<in> set run_pulls. b \<noteq> []"
  "\<forall>b \<in> set run_pulls. length b \<le> 1024"
  by (simp_all add: run_pulls_def)

lemma run_pulls_concat: "concat run_pulls = replicate 4411 quiet @ [loud]"
  by (simp add: run_pulls_def replicate_join)

lemma two_short_runs_ok:
  "\<forall>b \<in> set two_short_runs. b \<noteq> []"
  "\<forall>b \<in> set two_short_runs. length b \<le> 1024"
  by (simp_all add: two_short_runs_def)

lemma two_short_runs_concat:
  "concat two_short_runs = replicate 3000 quiet @ [loud] @ replicate 3000 quiet @ [loud]"
  by (simp add: two_short_runs_def replicate_join)


section \<open>The claims\<close>

text \<open>
  Claim C1. A pass of the seamless play loop is meant to hand \<open>end - start\<close> samples to
  the sink, and the loop guard \<^verbatim>\<open>samplesPlayed < segmentLength\<close> counts the samples
  delivered; but every pull is written whole, and the guard is only tested between pulls.
  With \<open>start = 2\<close> and \<open>end = 5\<close> on the stream of ten samples, the pull after the seek
  yields the samples 2 to 9 and the pass writes all eight of them, 32 bytes and not 12;
  so does each of the first three passes.
\<close>
theorem iteration_writes_eight_samples_not_three:
  "seamlessLoop_body oor mem_streamer 2 5 (mem_of ten_samples) [] =
     Inr (\<lparr>frames = ten_samples, cursor = 10\<rparr>, [ten_samples_from_2])
   \<and> seamlessLoop_upto 3 oor mem_streamer 2 5 (mem_of ten_samples) [] =
     Inr (\<lparr>frames = ten_samples, cursor = 10\<rparr>,
          [ten_samples_from_2, ten_samples_from_2, ten_samples_from_2])
   \<and> length ten_samples = 10
   \<and> length ten_samples_from_2 = 4 * 8
   \<and> length ten_samples_from_2 \<noteq> 4 * (5 - 2)"
proof (intro conjI)
  show "seamlessLoop_body oor mem_streamer 2 5 (mem_of ten_samples) [] =
     Inr (\<lparr>frames = ten_samples, cursor = 10\<rparr>, [ten_samples_from_2])"
    using ten_samples_body [of oor 0 "[]"] by (simp add: mem_of_def)
  show "seamlessLoop_upto 3 oor mem_streamer 2 5 (mem_of ten_samples) [] =
     Inr (\<lparr>frames = ten_samples, cursor = 10\<rparr>,
          [ten_samples_from_2, ten_samples_from_2, ten_samples_from_2])"
    by (simp add: numeral_3_eq_3 mem_of_def ten_samples_body)
  show "length ten_samples = 10" by (simp add: ten_samples_def)
  show "length ten_samples_from_2 = 4 * 8" by (simp add: ten_samples_from_2_def)
  show "length ten_samples_from_2 \<noteq> 4 * (5 - 2)" by (simp add: ten_samples_from_2_def)
qed

text \<open>
  Claim C2, as amended. On every in-memory stream with exactly two silence runs longer than
  \<open>silenceDuration\<close>, each ended by a non-silent sample (the stream is
  \<open>g1 @ r1 @ [l1] @ g2 @ r2 @ [l2] @ t\<close>, with the long runs \<open>r1\<close> and \<open>r2\<close>, the
  non-silent samples \<open>l1\<close> and \<open>l2\<close>, and no long silence in \<open>g1\<close>, \<open>g2\<close> and \<open>t\<close>),
  the detector returns the pair (index at which the first run ends, index at which the
  second run ends). Silence is the detector's own test, in float64 arithmetic.
\<close>
theorem two_runs_give_both_run_ends:
  assumes "qualifying (g1, r1, l1)" and "qualifying (g2, r2, l2)" and "no_long_silence t"
  shows "detectLoopSegment mem_streamer (mem_of (g1 @ r1 @ [l1] @ g2 @ r2 @ [l2] @ t)) =
           Some (Inr ((int (length g1 + length r1),
                       int (length g1 + length r1 + 1 + length g2 + length r2)),
                      \<lparr>frames = g1 @ r1 @ [l1] @ g2 @ r2 @ [l2] @ t,
                       cursor = length (g1 @ r1 @ [l1] @ g2 @ r2 @ [l2] @ t)\<rparr>))"
  by (rule mem_detect_two_segments [OF assms])

theorem two_runs_give_both_run_ends_witness:
  "qualifying ([loud], replicate 4411 quiet, loud)
   \<and> qualifying ([loud, quiet], replicate 5000 quiet, loud)
   \<and> no_long_silence [quiet, loud]
   \<and> detectLoopSegment mem_streamer
        (mem_of ([loud] @ replicate 4411 quiet @ [loud] @
                 [loud, quiet] @ replicate 5000 quiet @ [loud] @ [quiet, loud])) =
      Some (Inr ((4412, 9415),
        \<lparr>frames = [loud] @ replicate 4411 quiet @ [loud] @
                 [loud, quiet] @ replicate 5000 quiet @ [loud] @ [quiet, loud],
         cursor = 9418\<rparr>))"
proof -
  have q1: "qualifying ([loud], replicate 4411 quiet, loud)"
    by (simp add: qualifying_def list_all_iff silent_quiet loud_not_silent no_long_silence_short
        silenceDuration_4410)
  have q2: "qualifying ([loud, quiet], replicate 5000 quiet, loud)"
    by (simp add: qualifying_def list_all_iff silent_quiet loud_not_silent no_long_silence_short
        silenceDuration_4410)
  have t: "no_long_silence [quiet, loud]"
    by (rule no_long_silence_short) (simp add: silenceDuration_4410)
  show ?thesis
    using q1 q2 t two_runs_give_both_run_ends [OF q1 q2 t] by simp
qed

text \<open>
  The claim as stated has 0 for the first component. On 4411 silent samples, a non-silent
  one, 4411 silent samples and a non-silent one, the second run ends at index 8823 and the
  detector returns \<open>(4411, 8823)\<close>, not \<open>(0, 8823)\<close>.
\<close>

theorem two_runs_start_is_not_zero:
  "qualifying ([], replicate 4411 quiet, loud)
   \<and> detectLoopSegment mem_streamer
        (mem_of (replicate 4411 quiet @ [loud] @ replicate 4411 quiet @ [loud])) =
      Some (Inr ((4411, 8823),
        \<lparr>frames = replicate 4411 quiet @ [loud] @ replicate 4411 quiet @ [loud],
         cursor = 8824\<rparr>))
   \<and> detectLoopSegment mem_streamer
        (mem_of (replicate 4411 quiet @ [loud] @ replicate 4411 quiet @ [loud])) \<noteq>
      Some (Inr ((0, 8823),
        \<lparr>frames = replicate 4411 quiet @ [loud] @ replicate 4411 quiet @ [loud],
         cursor = 8824\<rparr>))"
  using qualifying_4411
    mem_detect_two_segments [OF qualifying_4411 qualifying_4411 no_long_silence_Nil]
  by simp

text \<open>
  Claim C3. On every stream with three or more silence runs longer than
  \<open>silenceDuration\<close>, each followed by a non-silent sample, the detector returns the
  last two boundaries only: \<open>start\<close> is the boundary recorded at the end of the
  second-to-last run and \<open>end\<close> the boundary recorded at the end of the last run; no
  earlier boundary is part of the result. The stream is any one whose pulls yield the
  batches \<open>bs\<close>, of at most 1024 samples each, before a pull ends the scan; its samples
  \<open>concat bs\<close> are the stretches \<open>segs\<close> and then a rest \<open>t\<close> without a long silence.
  The boundary recorded for the sample at position \<open>p\<close> is \<open>stamp 0 bs p\<close>, the
  detector's \<^verbatim>\<open>i*1024 + j\<close>; it is \<open>p\<close> itself when no pull but the last comes short
  (\<open>stamp_full\<close>).
\<close>
theorem last_two_run_ends_win:
  assumes "delivers S s bs s'" and "\<forall>b \<in> set bs. length b \<le> 1024"
    and "concat bs = concat (map seg_samples segs) @ t"
    and "3 \<le> length segs" and "list_all qualifying segs" and "no_long_silence t"
  shows "detectLoopSegment S s =
           Some (Inr ((int (stamp 0 bs (run_end segs (length segs - 2))),
                       int (stamp 0 bs (run_end segs (length segs - 1)))), s'))"
proof -
  have "segs \<noteq> []" "length segs \<noteq> 1" using assms(4) by auto
  then show ?thesis using detect_segments [OF assms(1,2,3) _ assms(5,6)] by simp
qed

theorem last_two_run_ends_win_witness:
  "delivers script_streamer (map (\<lambda>b. (b, True)) (run_pulls @ run_pulls @ run_pulls))
     (run_pulls @ run_pulls @ run_pulls) []
   \<and> concat (run_pulls @ run_pulls @ run_pulls) =
       concat (map seg_samples
         [([], replicate 4411 quiet, loud), ([], replicate 4411 quiet, loud),
          ([], replicate 4411 quiet, loud)]) @ []
   \<and> 3 \<le> length [([] :: sample list, replicate 4411 quiet, loud), ([], replicate 4411 quiet, loud),
                  ([], replicate 4411 quiet, loud)]
   \<and> list_all qualifying
       [([], replicate 4411 quiet, loud), ([], replicate 4411 quiet, loud),
        ([], replicate 4411 quiet, loud)]
   \<and> no_long_silence []
   \<and> run_end [([], replicate 4411 quiet, loud), ([], replicate 4411 quiet, loud),
              ([], replicate 4411 quiet, loud)] 1 = 8823
   \<and> run_end [([], replicate 4411 quiet, loud), ([], replicate 4411 quiet, loud),
              ([], replicate 4411 quiet, loud)] 2 = 13235
   \<and> detectLoopSegment script_streamer (map (\<lambda>b. (b, True)) (run_pulls @ run_pulls @ run_pulls)) =
       Some (Inr ((9531, 14651), []))"
  (is "?D \<and> ?C \<and> ?N \<and> ?Q \<and> ?T \<and> ?E1 \<and> ?E2 \<and> ?R")
proof -
  let ?bs = "run_pulls @ run_pulls @ run_pulls"
  let ?segs = "[([], replicate 4411 quiet, loud), ([], replicate 4411 quiet, loud),
                ([], replicate 4411 quiet, loud)]"
  have d: ?D by (rule script_delivers) (rule run_pulls_ok(1))
  have l: "\<forall>b \<in> set ?bs. length b \<le> 1024" by (rule run_pulls_ok(2))
  have c: ?C by (simp add: run_pulls_concat seg_samples_def)
  have n: ?N by simp
  have q: ?Q using qualifying_4411 by simp
  have t: ?T by (rule no_long_silence_Nil)
  have e1: "run_end ?segs (length ?segs - 2) = 8823"
    by (simp add: run_end_def seg_samples_def)
  have e2: "run_end ?segs (length ?segs - 1) = 13235"
    by (simp add: run_end_def seg_samples_def)
  have s1: "stamp 0 ?bs 8823 = 9531" by (simp add: run_pulls_def)
  have s2: "stamp 0 ?bs 13235 = 14651" by (simp add: run_pulls_def)
  note th = last_two_run_ends_win [OF d l c n q t, unfolded e1 e2 s1 s2]
  show ?thesis
  proof (intro conjI)
    show ?D by (rule d)
    show ?C by (rule c)
    show ?N by (rule n)
    show ?Q by (rule q)
    show ?T by (rule t)
    show ?E1 by (simp add: run_end_def seg_samples_def)
    show ?E2 by (simp add: run_end_def seg_samples_def)
    show ?R using th by simp
  qed
qed

text \<open>
  Claim C4, as amended. The silence threshold of the detector is the constant
  \<open>44100 / 10 = 4410\<close> samples for every input stream, whatever the sample rate of the
  decoded file (100 ms of silence at 44.1 kHz only): \<^verbatim>\<open>main\<close> hands only the stream to
  the detector, and a run \<open>r\<close> of silent samples that begins after a non-silent sample
  (or at the start of the stream) and that the non-silent sample \<open>l\<close> ends sets a
  boundary exactly when it is longer than 4410 samples. Then \<open>start\<close> becomes the
  \<open>end\<close> found in the samples \<open>pre\<close> before the run and \<open>end\<close> becomes the index
  recorded for \<open>l\<close>; otherwise \<open>start\<close> and \<open>end\<close> stay what they were after \<open>pre\<close>.
  The stream is any one whose pulls yield the batches \<open>bs\<close>, of at most 1024 samples
  each, before a pull ends the scan; the rest \<open>t\<close> of it has no long silence.
\<close>
theorem silence_threshold_is_4410:
  assumes "delivers S s bs s'" and "\<forall>b \<in> set bs. length b \<le> 1024"
    and "concat bs = pre @ r @ [l] @ t"
    and "pre = [] \<or> \<not> silent (last pre)" and "list_all silent r" and "\<not> silent l"
    and "no_long_silence t"
  shows "silenceDuration = 4410 \<and>
         main_detect S (s, fmt) =
           Some (Inr ((if 4410 < length r
                       then (endp (scan_fn (stamp 0 bs) 0 pre detector_init),
                             int (stamp 0 bs (length pre + length r)))
                       else (start (scan_fn (stamp 0 bs) 0 pre detector_init),
                             endp (scan_fn (stamp 0 bs) 0 pre detector_init))), s'))"
  using detect_run [OF assms]
  by (simp add: main_detect_def silenceDuration_4410)

theorem silence_threshold_is_4410_witness:
  "delivers script_streamer (map (\<lambda>b. (b, True)) two_short_runs) two_short_runs []
   \<and> concat two_short_runs = (replicate 3000 quiet @ [loud]) @ replicate 3000 quiet @ [loud] @ []
   \<and> \<not> silent (last (replicate 3000 quiet @ [loud]))
   \<and> list_all silent (replicate 3000 quiet) \<and> \<not> silent loud \<and> no_long_silence []
   \<and> silenceDuration = 4410
   \<and> main_detect script_streamer (map (\<lambda>b. (b, True)) two_short_runs,
        \<lparr>SampleRate = 48000, NumChannels = 2, Precision = 2\<rparr>) = Some (Inr ((0, 0), []))
   \<and> delivers script_streamer (map (\<lambda>b. (b, True)) run_pulls) run_pulls []
   \<and> concat run_pulls = [] @ replicate 4411 quiet @ [loud] @ []
   \<and> list_all silent (replicate 4411 quiet)
   \<and> main_detect script_streamer (map (\<lambda>b. (b, True)) run_pulls,
        \<lparr>SampleRate = 48000, NumChannels = 2, Precision = 2\<rparr>) = Some (Inr ((0, 4411), []))"
  (is "?D \<and> ?C \<and> ?P \<and> ?R \<and> ?L \<and> ?T \<and> ?S \<and> ?M \<and> ?D2 \<and> ?C2 \<and> ?R2 \<and> ?M2")
proof -
  let ?fmt = "\<lparr>SampleRate = 48000, NumChannels = 2, Precision = 2\<rparr>"
  let ?pre = "replicate 3000 quiet @ [loud]"
  have d: ?D by (rule script_delivers) (rule two_short_runs_ok(1))
  have c: ?C by (simp add: two_short_runs_concat)
  have p: "?pre = [] \<or> \<not> silent (last ?pre)" by (simp add: loud_not_silent)
  have r: ?R by (simp add: list_all_iff silent_quiet)
  have t: ?T by (rule no_long_silence_Nil)
  have z: "silenceCount detector_init = 0" by (simp add: detector_init_def)
  have d0: "scan_fn (stamp 0 two_short_runs) 0 ?pre detector_init = detector_init"
    using scan_fn_run [OF r loud_not_silent z, of "stamp 0 two_short_runs" 0]
    by (simp add: silenceDuration_4410)
  note th = silence_threshold_is_4410 [OF d two_short_runs_ok(2) c p r loud_not_silent t,
      of ?fmt, unfolded d0]
  have d2: ?D2 by (rule script_delivers) (rule run_pulls_ok(3))
  have c2: ?C2 by (simp add: run_pulls_concat)
  have p2: "([] :: sample list) = [] \<or> \<not> silent (last [])" by simp
  have r2: ?R2 by (simp add: list_all_iff silent_quiet)
  have s2: "stamp 0 run_pulls 4411 = 4411" by (simp add: run_pulls_def)
  note th2 = silence_threshold_is_4410 [OF d2 run_pulls_ok(4) c2 p2 r2 loud_not_silent t, of ?fmt]
  show ?thesis
  proof (intro conjI)
    show ?D by (rule d)
    show ?C by (rule c)
    show ?P using p by simp
    show ?R by (rule r)
    show ?L by (rule loud_not_silent)
    show ?T by (rule t)
    show ?S using th by simp
    show ?M using th by (simp add: detector_init_def)
    show ?D2 by (rule d2)
    show ?C2 by (rule c2)
    show ?R2 by (rule r2)
    show ?M2 using th2 s2 by (simp add: detector_init_def)
  qed
qed

text \<open>
  The claim as stated fails at 48 kHz: a tenth of the sample rate is 4800 samples, the
  detector's threshold is not, and a silent run of 4500 samples, which is not longer
  than 4800, still sets a boundary.
\<close>

theorem threshold_not_a_tenth_of_the_sample_rate:
  "silenceDuration \<noteq> SampleRate \<lparr>SampleRate = 48000, NumChannels = 2, Precision = 2\<rparr> div 10
   \<and> \<not> SampleRate \<lparr>SampleRate = 48000, NumChannels = 2, Precision = 2\<rparr> div 10
         < length (replicate 4500 quiet)
   \<and> main_detect mem_streamer (mem_of (replicate 4500 quiet @ [loud]),
       \<lparr>SampleRate = 48000, NumChannels = 2, Precision = 2\<rparr>) =
     Some (Inr ((0, 4500), \<lparr>frames = replicate 4500 quiet @ [loud], cursor = 4501\<rparr>))"
proof -
  have q: "qualifying ([], replicate 4500 quiet, loud)"
    by (rule qualifying_silence) (simp add: silenceDuration_4410)
  have "[([], replicate 4500 quiet, loud)] \<noteq> []" by simp
  moreover have "list_all qualifying [([], replicate 4500 quiet, loud)]" using q by simp
  ultimately show ?thesis
    using mem_detect_segments [OF _ _ no_long_silence_Nil,
        of "[([], replicate 4500 quiet, loud)]"]
    by (simp add: main_detect_def silenceDuration_4410 seg_samples_def run_end_def)
qed

text \<open>
  Claim C5. On every stream in which no run of consecutive samples with channel average
  below 0.001 is longer than \<open>silenceDuration\<close> samples, the detector returns \<open>(0, 0)\<close>.
  The stream is any one whose pulls yield the batches \<open>bs\<close>, of at most 1024 samples
  each, before a pull ends the scan; its samples are \<open>concat bs\<close>. The average and
  the comparison are the detector's, in float64 arithmetic.
\<close>
theorem no_long_silence_gives_zero_segment:
  assumes "delivers S s bs s'" and "\<forall>b \<in> set bs. length b \<le> 1024"
    and "no_long_silence (concat bs)"
  shows "detectLoopSegment S s = Some (Inr ((0, 0), s'))"
proof -
  have "\<forall>x \<in> set ([]::sample list). silent x"
    "silenceCount detector_init = length ([]::sample list)"
    "no_long_silence ([] @ concat bs)"
    using assms(3) by (simp_all add: detector_init_def)
  from scan_fn_quiet [OF this, of "stamp 0 bs" 0] obtain c where
    "scan_batches 0 bs detector_init = detector_init\<lparr>silenceCount := c\<rparr>"
    unfolding scan_batches_fn by auto
  then show ?thesis
    using detect_delivers [OF assms(1,2)] by (simp add: detector_init_def)
qed

theorem no_long_silence_gives_zero_segment_witness:
  "delivers script_streamer
      [(replicate 1024 quiet, True), (replicate 1024 quiet, True),
       (replicate 1024 quiet, True), (replicate 1024 quiet, True),
       (replicate 314 quiet @ [loud], True)]
      [replicate 1024 quiet, replicate 1024 quiet, replicate 1024 quiet,
       replicate 1024 quiet, replicate 314 quiet @ [loud]] []
   \<and> no_long_silence (concat
      [replicate 1024 quiet, replicate 1024 quiet, replicate 1024 quiet,
       replicate 1024 quiet, replicate 314 quiet @ [loud]])
   \<and> concat [replicate 1024 quiet, replicate 1024 quiet, replicate 1024 quiet,
       replicate 1024 quiet, replicate 314 quiet @ [loud]]
       = replicate 4410 quiet @ [loud]
   \<and> detectLoopSegment script_streamer
      [(replicate 1024 quiet, True), (replicate 1024 quiet, True),
       (replicate 1024 quiet, True), (replicate 1024 quiet, True),
       (replicate 314 quiet @ [loud], True)]
       = Some (Inr ((0, 0), []))"
  (is "?A \<and> ?B \<and> ?C \<and> ?D")
proof -
  let ?bs = "[replicate 1024 quiet, replicate 1024 quiet, replicate 1024 quiet,
       replicate 1024 quiet, replicate 314 quiet @ [loud]]"
  have d: ?A
    by (simp add: script_streamer_def script_Stream_def)
  have l: "\<forall>b \<in> set ?bs. length b \<le> 1024" by simp
  have c: ?C by (simp add: replicate_join)
  have q: ?B
    unfolding c
    by (rule no_long_silence_run_then_loud) (simp_all add: silenceDuration_4410 loud_not_silent)
  from d q c no_long_silence_gives_zero_segment [OF d l q] show ?thesis by (intro conjI)
qed

text \<open>
  Claim C6. The packing loop turns the sample \<open>(1.0, -1.0)\<close> into the four bytes that are
  the little-endian signed 16-bit encodings of 32767 and then of -32767 (left channel
  first), that is \<open>FF 7F 01 80\<close>, and the sample \<open>(0.0, 0.0)\<close> into four zero bytes.
\<close>
theorem packing_of_extreme_and_zero_samples:
  "fill_writeBuffer oor [(Finite 1 0, Finite (- 1) 0)] 1 = le16_of_int 32767 @ le16_of_int (- 32767)
   \<and> fill_writeBuffer oor [(Finite 1 0, Finite (- 1) 0)] 1 = [0xFF, 0x7F, 0x01, 0x80]
   \<and> fill_writeBuffer oor [(Finite 0 0, Finite 0 0)] 1 = [0, 0, 0, 0]"
  using pcm_bytes_extremes [of oor]
  by (simp add: fill_writeBuffer_single le16_of_int_def opposed_def quiet_def)

text \<open>
  Claim C7. On every stream and in every state of it, a pass of the play loop whose pull
  after the seek to \<open>start\<close> yields no sample (or reports \<^verbatim>\<open>!ok\<close>), and likewise
  every pass with \<open>start = end\<close>, hands nothing to the sink and does not fail: it
  returns with the sink as it was. (\<open>seamlessLoop_spins\<close> above is the same for any
  number of passes.) With \<open>start = 1000000\<close> and \<open>end = 1000010\<close> on a stream of 100
  samples the pull after the seek yields nothing.
\<close>
theorem zero_pull_iteration_writes_nothing:
  assumes "start' = end' \<or>
           (case Stream S (snd (Seek S s start')) 1024 of ((buf, ok), t) \<Rightarrow> \<not> ok \<or> buf = [])"
  shows "\<exists>s'. seamlessLoop_body oor S start' end' s snk = Inr (s', snk)"
  by (rule body_zero [OF assms])

theorem zero_pull_iteration_writes_nothing_witness:
  "Stream mem_streamer (snd (Seek mem_streamer (mem_of (replicate 100 loud)) 1000000)) 1024
     = (([], False), \<lparr>frames = replicate 100 loud, cursor = 1000000\<rparr>)
   \<and> (\<exists>s'. seamlessLoop_body (\<lambda>x. 0) mem_streamer 1000000 1000010 (mem_of (replicate 100 loud)) []
            = Inr (s', []))
   \<and> (\<exists>s'. seamlessLoop_body (\<lambda>x. 0) mem_streamer 7 7 (mem_of (replicate 100 loud)) []
            = Inr (s', []))"
  (is "?A \<and> ?B \<and> ?C")
proof (intro conjI)
  show a: ?A using mem_seek_beyond [of "mem_of (replicate 100 loud)" 1000000]
    by (simp add: mem_of_def)
  show ?B
    by (rule zero_pull_iteration_writes_nothing) (simp add: a)
  show ?C
    by (rule zero_pull_iteration_writes_nothing) simp
qed

text \<open>
  Claim C8. The detector returns, and returns no error, on every stream whose pulls yield
  batches \<open>bs\<close> (of at most 1024 samples each) and then a pull that reports \<^verbatim>\<open>!ok\<close>,
  with or without samples, or no sample: it stops at that pull and returns the boundaries
  accumulated over \<open>bs\<close>, the same pair it returns on a stream that yields \<open>bs\<close> and
  is then at its end. On every in-memory stream, in any state \<open>m\<close>, the detector
  returns a pair.
\<close>
theorem failing_pull_ends_the_scan_quietly:
  assumes "delivers S s bs s'" and "\<forall>b \<in> set bs. length b \<le> 1024"
  shows "detectLoopSegment S s =
           Some (Inr ((start (scan_batches 0 bs detector_init),
                       endp (scan_batches 0 bs detector_init)), s'))
         \<and> detectLoopSegment script_streamer (map (\<lambda>b. (b, True)) bs) =
           Some (Inr ((start (scan_batches 0 bs detector_init),
                       endp (scan_batches 0 bs detector_init)), []))
         \<and> (\<exists>r. detectLoopSegment mem_streamer m = Some (Inr r))"
  using detect_delivers [OF assms]
    detect_delivers [OF script_delivers [OF delivers_nonempty [OF assms(1)]] assms(2)]
    mem_detect_total [of m]
  by simp

theorem failing_pull_ends_the_scan_quietly_witness:
  "delivers script_streamer
     [(replicate 1024 quiet, True), (replicate 1024 quiet, True), (replicate 1024 quiet, True),
      (replicate 1024 quiet, True), (replicate 1024 quiet, True), ([quiet, loud], True),
      (replicate 1024 quiet, False), ([loud], True)]
     [replicate 1024 quiet, replicate 1024 quiet, replicate 1024 quiet, replicate 1024 quiet,
      replicate 1024 quiet, [quiet, loud]]
     [([loud], True)]
   \<and> detectLoopSegment script_streamer
     [(replicate 1024 quiet, True), (replicate 1024 quiet, True), (replicate 1024 quiet, True),
      (replicate 1024 quiet, True), (replicate 1024 quiet, True), ([quiet, loud], True),
      (replicate 1024 quiet, False), ([loud], True)]
     = Some (Inr ((0, 5121), [([loud], True)]))
   \<and> detectLoopSegment script_streamer
     [(replicate 1024 quiet, True), (replicate 1024 quiet, True), (replicate 1024 quiet, True),
      (replicate 1024 quiet, True), (replicate 1024 quiet, True), ([quiet, loud], True)]
     = Some (Inr ((0, 5121), []))"
  (is "?A \<and> ?B \<and> ?C")
proof -
  let ?bs = "[replicate 1024 quiet, replicate 1024 quiet, replicate 1024 quiet,
      replicate 1024 quiet, replicate 1024 quiet, [quiet, loud]]"
  have d: "delivers script_streamer
     [(replicate 1024 quiet, True), (replicate 1024 quiet, True), (replicate 1024 quiet, True),
      (replicate 1024 quiet, True), (replicate 1024 quiet, True), ([quiet, loud], True),
      (replicate 1024 quiet, False), ([loud], True)]
     ?bs [([loud], True)]"
    by (simp add: script_streamer_def script_Stream_def)
  have l: "\<forall>b \<in> set ?bs. length b \<le> 1024" by simp
  have r: "scan_batches 0 ?bs detector_init = \<lparr>start = 0, endp = 5121, silenceCount = 0\<rparr>"
    by (simp add: scan_silent_batch sample_step_silent sample_step_loud silent_quiet
        loud_not_silent silenceDuration_4410 detector_init_def)
  note th = failing_pull_ends_the_scan_quietly [OF d l, of "mem_of []", unfolded r]
  show ?thesis
  proof (intro conjI)
    show ?A by (rule d)
    show ?B using th by simp
    show ?C using th by simp
  qed
qed

text \<open>
  Claim C9. For every input stream, the pair \<open>(start, end)\<close> that the detector returns
  satisfies \<open>0 \<le> start \<le> end\<close>.
\<close>
theorem detected_segment_is_ordered:
  assumes "detectLoopSegment S s = Some (Inr ((a, b), s'))"
  shows "0 \<le> a \<and> a \<le> b"
proof -
  from detect_returns [OF assms] obtain bs where
    bs: "\<forall>b \<in> set bs. length b \<le> 1024"
        "a = start (scan_batches 0 bs detector_init)" "b = endp (scan_batches 0 bs detector_init)"
    by blast
  have "0 \<le> start detector_init" "start detector_init \<le> endp detector_init"
    "endp detector_init \<le> int (0 * 1024)"
    by (simp_all add: detector_init_def)
  from scan_batches_ordered [OF this bs(1)] bs(2,3) show ?thesis by simp
qed

theorem detected_segment_is_ordered_witness:
  "detectLoopSegment mem_streamer
        (mem_of (replicate 4411 quiet @ [loud] @ replicate 4411 quiet @ [loud])) =
      Some (Inr ((4411, 8823),
        \<lparr>frames = replicate 4411 quiet @ [loud] @ replicate 4411 quiet @ [loud],
         cursor = 8824\<rparr>))
   \<and> (0 :: int) \<le> 4411 \<and> (4411 :: int) \<le> 8823"
proof -
  have d: "detectLoopSegment mem_streamer
        (mem_of (replicate 4411 quiet @ [loud] @ replicate 4411 quiet @ [loud])) =
      Some (Inr ((4411, 8823),
        \<lparr>frames = replicate 4411 quiet @ [loud] @ replicate 4411 quiet @ [loud],
         cursor = 8824\<rparr>))"
    using mem_detect_two_segments [OF qualifying_4411 qualifying_4411 no_long_silence_Nil]
    by simp
  from d detected_segment_is_ordered [OF d] show ?thesis by (intro conjI) simp_all
qed



end
